theory Spec2Isabelle
  imports Main "HOL-Library.Multiset" "HOL-Library.Char_ord" "HOL-Library.List_Lexorder"
    "HOL-Library.Product_Lexorder"
begin

section \<open>Python values, objects and exceptions\<close>

text \<open>
  The values that attributes and key functions produce: \<open>None\<close>, integers, strings and
  tuples. Floating-point values are outside the model.
\<close>

datatype pyval = VNone | VInt int | VStr string | VTuple "pyval list"

text \<open>
  The exceptions that can leave the two operations. \<open>ValueError\<close> is the one raised by
  \<open>annotate_property\<close> itself (managers.py line 69); an exception raised inside a
  caller-supplied callable is propagated unchanged and is tagged \<open>CallableRaised\<close> to
  tell it from those the library and its collaborators raise.
\<close>

datatype error = ValueError | AttributeError | TypeError | DatabaseError | CallableRaised

text \<open>
  A model instance: its identifier \<open>obj.pk\<close> (the integer column \<open>id\<close> that the
  synthesized SQL tests) and its other attributes by name. Attribute names are resolved
  against this list only; dotted traversal into related objects is not modelled.
\<close>

record pyobj =
  pk :: int
  attrs :: "(string \<times> pyval) list"

definition ebind :: "error + 'a \<Rightarrow> ('a \<Rightarrow> error + 'b) \<Rightarrow> error + 'b" where
  "ebind m f = (case m of Inl e \<Rightarrow> Inl e | Inr x \<Rightarrow> f x)"

fun traverse :: "('a \<Rightarrow> error + 'b) \<Rightarrow> 'a list \<Rightarrow> error + 'b list" where
  "traverse f [] = Inr []"
| "traverse f (x # xs) =
     (case f x of Inl e \<Rightarrow> Inl e
      | Inr y \<Rightarrow> (case traverse f xs of Inl e \<Rightarrow> Inl e | Inr ys \<Rightarrow> Inr (y # ys)))"

text \<open>
  A Python \<open>dict\<close> keeps insertion order; assigning to a key that is present replaces
  the value and keeps the key's position.
\<close>

fun dict_set :: "'k \<Rightarrow> 'v \<Rightarrow> ('k \<times> 'v) list \<Rightarrow> ('k \<times> 'v) list" where
  "dict_set k v [] = [(k, v)]"
| "dict_set k v (p # ps) = (if fst p = k then (k, v) # ps else p # dict_set k v ps)"

definition py_getattr :: "pyobj \<Rightarrow> string \<Rightarrow> error + pyval" where
  "py_getattr obj name =
     (case map_of (attrs obj) name of None \<Rightarrow> Inl AttributeError | Some v \<Rightarrow> Inr v)"

definition py_setattr :: "string \<Rightarrow> pyval \<Rightarrow> pyobj \<Rightarrow> pyobj" where
  "py_setattr name v obj = obj\<lparr>attrs := dict_set name v (attrs obj)\<rparr>"

text \<open>
  Python's \<open><\<close>: integers by value, strings by code point, tuples lexicographically (the
  first position where the items differ decides, a proper prefix is smaller); any other
  pair of operands raises \<open>TypeError\<close>.
\<close>

fun py_lt :: "pyval \<Rightarrow> pyval \<Rightarrow> error + bool"
  and tuple_lt :: "pyval list \<Rightarrow> pyval list \<Rightarrow> error + bool" where
  "py_lt (VInt a) (VInt b) = Inr (a < b)"
| "py_lt (VStr a) (VStr b) = Inr (a < b)"
| "py_lt (VTuple xs) (VTuple ys) = tuple_lt xs ys"
| "py_lt _ _ = Inl TypeError"
| "tuple_lt [] [] = Inr False"
| "tuple_lt [] (y # ys) = Inr True"
| "tuple_lt (x # xs) [] = Inr False"
| "tuple_lt (x # xs) (y # ys) = (if x = y then tuple_lt xs ys else py_lt x y)"

section \<open>Keys and the in-memory sort\<close>

text \<open>
  \<open>operator.attrgetter\<close>: with one name the getter returns the attribute, with several
  it returns the tuple of the attributes; called with no name at all it raises
  \<open>TypeError\<close> when it is constructed.
\<close>

fun attrgetter :: "string list \<Rightarrow> error + (pyobj \<Rightarrow> error + pyval)" where
  "attrgetter [] = Inl TypeError"
| "attrgetter [name] = Inr (\<lambda>obj. py_getattr obj name)"
| "attrgetter names =
     Inr (\<lambda>obj. case traverse (py_getattr obj) names of
                   Inl e \<Rightarrow> Inl e | Inr vs \<Rightarrow> Inr (VTuple vs))"

definition call :: "(pyobj \<Rightarrow> pyval option) \<Rightarrow> pyobj \<Rightarrow> error + pyval" where
  "call f obj = (case f obj of None \<Rightarrow> Inl CallableRaised | Some v \<Rightarrow> Inr v)"

datatype key = KCallable "pyobj \<Rightarrow> pyval option" | KStr string | KTuple "string list"

text \<open>Lines 26 to 30 of \<open>sort\<close>: the key is turned into one callable.\<close>

fun normalize_key :: "key \<Rightarrow> error + (pyobj \<Rightarrow> error + pyval)" where
  "normalize_key (KStr name) = attrgetter [name]"
| "normalize_key (KTuple names) = attrgetter names"
| "normalize_key (KCallable f) = Inr (call f)"

text \<open>
  \<open>sorted(iterable, key=..., reverse=...)\<close>: the keys of all elements are computed
  first, in order; the pairs are then sorted stably, each new element going in front of
  the first one that is not smaller than it. A comparison that raises aborts the sort.
  With \<open>reverse\<close> the list is reversed, sorted and reversed again, which keeps elements
  with equal keys in their original order.
\<close>

fun insert_sorted :: "pyval \<times> 'a \<Rightarrow> (pyval \<times> 'a) list \<Rightarrow> error + (pyval \<times> 'a) list" where
  "insert_sorted p [] = Inr [p]"
| "insert_sorted p (q # qs) =
     (case py_lt (fst q) (fst p) of
        Inl e \<Rightarrow> Inl e
      | Inr True \<Rightarrow> (case insert_sorted p qs of Inl e \<Rightarrow> Inl e | Inr rs \<Rightarrow> Inr (q # rs))
      | Inr False \<Rightarrow> Inr (p # q # qs))"

fun stable_sort :: "(pyval \<times> 'a) list \<Rightarrow> error + (pyval \<times> 'a) list" where
  "stable_sort [] = Inr []"
| "stable_sort (p # ps) =
     (case stable_sort ps of Inl e \<Rightarrow> Inl e | Inr qs \<Rightarrow> insert_sorted p qs)"

definition py_sorted :: "'a list \<Rightarrow> ('a \<Rightarrow> error + pyval) \<Rightarrow> bool \<Rightarrow> error + 'a list" where
  "py_sorted xs keyf reverse =
     ebind (traverse keyf xs) (\<lambda>keys.
       if reverse
       then ebind (stable_sort (rev (zip keys xs))) (\<lambda>ps. Inr (map snd (rev ps)))
       else ebind (stable_sort (zip keys xs)) (\<lambda>ps. Inr (map snd ps)))"

section \<open>Text of the synthesized expression\<close>

definition digit_char :: "nat \<Rightarrow> char" where
  "digit_char d = char_of (48 + d)"

fun str_nat :: "nat \<Rightarrow> string" where
  "str_nat n = (if n < 10 then [digit_char n] else str_nat (n div 10) @ [digit_char (n mod 10)])"

declare str_nat.simps [simp del]

definition str_int :: "int \<Rightarrow> string" where
  "str_int i = (if i < 0 then CHR ''-'' # str_nat (nat (- i)) else str_nat (nat i))"

fun join :: "string \<Rightarrow> string list \<Rightarrow> string" where
  "join sep [] = []"
| "join sep [s] = s"
| "join sep (s # t # ts) = s @ sep @ join sep (t # ts)"

definition hex_char :: "nat \<Rightarrow> char" where
  "hex_char d = (if d < 10 then char_of (48 + d) else char_of (87 + d))"

text \<open>
  \<open>repr\<close> of a string: double quotes are chosen when the string holds a single quote and
  no double quote; the chosen quote and the backslash are escaped with a backslash, tab,
  newline and carriage return are written \<open>\t\<close>, \<open>\n\<close>, \<open>\r\<close>, and the other
  non-printable code points below 256 are written \<open>\xNN\<close>.
\<close>

definition repr_char :: "char \<Rightarrow> char \<Rightarrow> string" where
  "repr_char q c =
     (let n = (of_char c :: nat) in
      if c = q \<or> n = 92 then [CHR 0x5C, c]
      else if n = 9 then [CHR 0x5C, CHR ''t'']
      else if n = 10 then [CHR 0x5C, CHR ''n'']
      else if n = 13 then [CHR 0x5C, CHR ''r'']
      else if n < 32 \<or> (127 \<le> n \<and> n \<le> 160) \<or> n = 173
        then [CHR 0x5C, CHR ''x'', hex_char (n div 16), hex_char (n mod 16)]
      else [c])"

definition repr_str :: "string \<Rightarrow> string" where
  "repr_str s =
     (let q = (if CHR 0x27 \<in> set s \<and> CHR 0x22 \<notin> set s
               then CHR 0x22 else CHR 0x27)
      in q # concat (map (repr_char q) s) @ [q])"

fun py_repr :: "pyval \<Rightarrow> string" where
  "py_repr VNone = ''None''"
| "py_repr (VInt i) = str_int i"
| "py_repr (VStr s) = repr_str s"
| "py_repr (VTuple vs) =
     (case vs of
        [] \<Rightarrow> ''()''
      | [v] \<Rightarrow> ''('' @ py_repr v @ '',)''
      | _ \<Rightarrow> ''('' @ join '', '' (map py_repr vs) @ '')'')"

definition case_sql :: "string list \<Rightarrow> string" where
  "case_sql whens = ''CASE '' @ join '' '' whens @ '' END''"

section \<open>The queryable collection\<close>

text \<open>
  Modelled from the spec: the queryable collection of the object-relational mapper, which
  is not part of this repository (spec section 6: iteration yields the records, a named
  computed field is attached as a textual expression that the database evaluates per row
  with a conditional keyed on the row's identifier column, and \<open>order_by\<close> requests
  ascending order on a named field). The database reads the expression text: it is split
  into tokens and parsed as \<open>CASE\<close>, one or more \<open>WHEN id = <integer> THEN <literal>\<close>
  branches, and \<open>END\<close>, a literal being an integer or a single-quoted string in which a
  doubled quote stands for a quote. Any other text is refused with a database error.
\<close>

datatype token = Word string | Number nat | Text string | Equals | Minus

datatype lex_mode = Idle | InNumber nat | InWord string | InText string | QuoteSeen string

definition is_digit :: "char \<Rightarrow> bool" where
  "is_digit c = (48 \<le> (of_char c :: nat) \<and> (of_char c :: nat) \<le> 57)"

definition is_letter :: "char \<Rightarrow> bool" where
  "is_letter c =
     (let n = (of_char c :: nat) in (65 \<le> n \<and> n \<le> 90) \<or> (97 \<le> n \<and> n \<le> 122) \<or> n = 95)"

definition digit_val :: "char \<Rightarrow> nat" where
  "digit_val c = of_char c - 48"

definition lex_idle :: "char \<Rightarrow> (token list \<times> lex_mode) option" where
  "lex_idle c =
     (if c = CHR '' '' then Some ([], Idle)
      else if c = CHR ''='' then Some ([Equals], Idle)
      else if c = CHR ''-'' then Some ([Minus], Idle)
      else if c = CHR 0x27 then Some ([], InText [])
      else if is_digit c then Some ([], InNumber (digit_val c))
      else if is_letter c then Some ([], InWord [c])
      else None)"

definition emit :: "token \<Rightarrow> char \<Rightarrow> (token list \<times> lex_mode) option" where
  "emit t c = (case lex_idle c of None \<Rightarrow> None | Some (ts, m) \<Rightarrow> Some (t # ts, m))"

fun lex_step :: "lex_mode \<Rightarrow> char \<Rightarrow> (token list \<times> lex_mode) option" where
  "lex_step Idle c = lex_idle c"
| "lex_step (InNumber n) c =
     (if is_digit c then Some ([], InNumber (10 * n + digit_val c))
      else if is_letter c then None
      else emit (Number n) c)"
| "lex_step (InWord w) c =
     (if is_letter c \<or> is_digit c then Some ([], InWord (c # w)) else emit (Word (rev w)) c)"
| "lex_step (InText s) c =
     (if c = CHR 0x27 then Some ([], QuoteSeen s) else Some ([], InText (c # s)))"
| "lex_step (QuoteSeen s) c =
     (if c = CHR 0x27 then Some ([], InText (c # s)) else emit (Text (rev s)) c)"

fun lex_finish :: "lex_mode \<Rightarrow> token list option" where
  "lex_finish Idle = Some []"
| "lex_finish (InNumber n) = Some [Number n]"
| "lex_finish (InWord w) = Some [Word (rev w)]"
| "lex_finish (InText s) = None"
| "lex_finish (QuoteSeen s) = Some [Text (rev s)]"

fun lex_from :: "lex_mode \<Rightarrow> string \<Rightarrow> token list option" where
  "lex_from m [] = lex_finish m"
| "lex_from m (c # cs) =
     (case lex_step m c of
        None \<Rightarrow> None
      | Some (ts, m') \<Rightarrow> (case lex_from m' cs of None \<Rightarrow> None | Some us \<Rightarrow> Some (ts @ us)))"

definition tokenize :: "string \<Rightarrow> token list option" where
  "tokenize s = lex_from Idle s"

datatype sqlval = SqlNull | SqlInt int | SqlText string

type_synonym branches = "(int \<times> sqlval) list"

datatype parse_state =
    PStart
  | PBranch branches
  | PId branches
  | PEq branches
  | PPk branches
  | PPkNeg branches
  | PThen branches int
  | PLit branches int
  | PLitNeg branches int
  | PEnd branches

fun parse_step :: "parse_state \<Rightarrow> token \<Rightarrow> parse_state option" where
  "parse_step PStart (Word w) = (if w = ''CASE'' then Some (PBranch []) else None)"
| "parse_step (PBranch bs) (Word w) =
     (if w = ''WHEN'' then Some (PId bs)
      else if w = ''END'' \<and> bs \<noteq> [] then Some (PEnd bs)
      else None)"
| "parse_step (PId bs) (Word w) = (if w = ''id'' then Some (PEq bs) else None)"
| "parse_step (PEq bs) Equals = Some (PPk bs)"
| "parse_step (PPk bs) (Number n) = Some (PThen bs (int n))"
| "parse_step (PPk bs) Minus = Some (PPkNeg bs)"
| "parse_step (PPkNeg bs) (Number n) = Some (PThen bs (- int n))"
| "parse_step (PThen bs k) (Word w) = (if w = ''THEN'' then Some (PLit bs k) else None)"
| "parse_step (PLit bs k) (Number n) = Some (PBranch (bs @ [(k, SqlInt (int n))]))"
| "parse_step (PLit bs k) (Text s) = Some (PBranch (bs @ [(k, SqlText s)]))"
| "parse_step (PLit bs k) Minus = Some (PLitNeg bs k)"
| "parse_step (PLitNeg bs k) (Number n) = Some (PBranch (bs @ [(k, SqlInt (- int n))]))"
| "parse_step _ _ = None"

fun parse_from :: "parse_state \<Rightarrow> token list \<Rightarrow> parse_state option" where
  "parse_from st [] = Some st"
| "parse_from st (t # ts) =
     (case parse_step st t of None \<Rightarrow> None | Some st' \<Rightarrow> parse_from st' ts)"

definition parse_case :: "token list \<Rightarrow> branches option" where
  "parse_case ts = (case parse_from PStart ts of Some (PEnd bs) \<Rightarrow> Some bs | _ \<Rightarrow> None)"

definition compile_sql :: "string \<Rightarrow> error + branches" where
  "compile_sql sql =
     (case tokenize sql of
        None \<Rightarrow> Inl DatabaseError
      | Some ts \<Rightarrow> (case parse_case ts of None \<Rightarrow> Inl DatabaseError | Some bs \<Rightarrow> Inr bs))"

text \<open>The first branch whose identifier matches gives the value; no match gives NULL.\<close>

definition eval_case :: "branches \<Rightarrow> int \<Rightarrow> sqlval" where
  "eval_case bs ident = (case map_of bs ident of None \<Rightarrow> SqlNull | Some v \<Rightarrow> v)"

fun from_sql :: "sqlval \<Rightarrow> pyval" where
  "from_sql SqlNull = VNone"
| "from_sql (SqlInt i) = VInt i"
| "from_sql (SqlText s) = VStr s"

text \<open>Ascending order of the database: NULL first, then numbers, then text.\<close>

fun sql_ord :: "sqlval \<Rightarrow> nat \<times> int \<times> string" where
  "sql_ord SqlNull = (0, 0, [])"
| "sql_ord (SqlInt i) = (1, i, [])"
| "sql_ord (SqlText s) = (2, 0, s)"

text \<open>
  A collection: the rows its query matches, in the order the database returns them
  when no computed field orders them; the computed fields attached with
  \<open>extra(select=...)\<close>, a dictionary from name to expression text; and the computed
  field named by \<open>order_by\<close>, if any.
\<close>

record queryset =
  qs_rows :: "pyobj list"
  qs_select :: "(string \<times> string) list"
  qs_order :: "string option"

definition extra :: "queryset \<Rightarrow> string \<Rightarrow> string \<Rightarrow> queryset" where
  "extra qs name sql = qs\<lparr>qs_select := dict_set name sql (qs_select qs)\<rparr>"

definition order_by :: "queryset \<Rightarrow> string \<Rightarrow> queryset" where
  "order_by qs name = qs\<lparr>qs_order := Some name\<rparr>"

definition compile_field :: "string \<times> string \<Rightarrow> error + (string \<times> branches)" where
  "compile_field f = (case compile_sql (snd f) of Inl e \<Rightarrow> Inl e | Inr bs \<Rightarrow> Inr (fst f, bs))"

definition row_object :: "(string \<times> branches) list \<Rightarrow> pyobj \<Rightarrow> pyobj" where
  "row_object compiled row =
     foldr (\<lambda>f obj. py_setattr (fst f) (from_sql (eval_case (snd f) (pk row))) obj) compiled row"

text \<open>
  Iterating a collection runs its query: every computed field's expression is compiled
  (a malformed one fails the whole query, whatever the rows), each row becomes an object
  carrying the computed values as attributes (the value of a name is the one of its
  first entry, as for the ordering field), and the objects are ordered by the ordering
  field, rows with equal values staying in the order of the rows.
\<close>

definition fetch :: "(string \<times> branches) list \<Rightarrow> pyobj list \<Rightarrow> string option \<Rightarrow> error + pyobj list" where
  "fetch compiled rows order_field =
     (let objs = map (row_object compiled) rows in
      case order_field of
        None \<Rightarrow> Inr objs
      | Some name \<Rightarrow>
          (case map_of compiled name of
             None \<Rightarrow> Inl DatabaseError
           | Some bs \<Rightarrow> Inr (sort_key (\<lambda>obj. sql_ord (eval_case bs (pk obj))) objs)))"

definition iterate :: "queryset \<Rightarrow> error + pyobj list" where
  "iterate qs =
     ebind (traverse compile_field (qs_select qs))
       (\<lambda>compiled. fetch compiled (qs_rows qs) (qs_order qs))"

section \<open>AnnotatableQuerySet\<close>

definition sort_pk_mapping :: "pyobj list \<Rightarrow> (int \<times> nat) list" where
  "sort_pk_mapping sorted_objects =
     fold (\<lambda>(order, obj) d. dict_set (pk obj) order d) (enumerate 0 sorted_objects) []"

definition sort_when :: "int \<times> nat \<Rightarrow> string" where
  "sort_when item = ''WHEN id = '' @ str_int (fst item) @ '' THEN '' @ str_int (int (snd item))"

definition sort :: "queryset \<Rightarrow> key \<Rightarrow> bool \<Rightarrow> error + queryset" where
  "sort qs k reverse =
     ebind (normalize_key k) (\<lambda>keyf.
     ebind (iterate qs) (\<lambda>objs.
     ebind (py_sorted objs keyf reverse) (\<lambda>sorted_objects.
       if sorted_objects = [] then Inr qs
       else
         let pk_mapping = sort_pk_mapping sorted_objects;
             sql = case_sql (map sort_when pk_mapping)
         in Inr (order_by (extra qs ''sort_order'' sql) ''sort_order''))))"

datatype annotation = ACallable "pyobj \<Rightarrow> pyval option" | AStr string

text \<open>Lines 65 to 69 of \<open>annotate_property\<close>: the name of the computed field.\<close>

fun output_name :: "annotation \<Rightarrow> string option \<Rightarrow> error + string" where
  "output_name _ (Some name) = Inr name"
| "output_name (AStr a) None = Inr (a @ ''_property'')"
| "output_name (ACallable f) None = Inl ValueError"

fun normalize_annotation :: "annotation \<Rightarrow> pyobj \<Rightarrow> error + pyval" where
  "normalize_annotation (AStr a) = (\<lambda>obj. py_getattr obj a)"
| "normalize_annotation (ACallable f) = call f"

definition annotate_pk_mapping :: "(pyobj \<Rightarrow> error + pyval) \<Rightarrow> pyobj list \<Rightarrow> error + (int \<times> pyval) list" where
  "annotate_pk_mapping f objs =
     ebind (traverse (\<lambda>obj. case f obj of Inl e \<Rightarrow> Inl e | Inr v \<Rightarrow> Inr (pk obj, v)) objs)
       (\<lambda>items. Inr (fold (\<lambda>(p, v) d. dict_set p v d) items []))"

definition annotate_when :: "int \<times> pyval \<Rightarrow> string" where
  "annotate_when item = ''WHEN id = '' @ str_int (fst item) @ '' THEN '' @ py_repr (snd item)"

definition annotate_property :: "queryset \<Rightarrow> annotation \<Rightarrow> string option \<Rightarrow> error + queryset" where
  "annotate_property qs ann property_name =
     ebind (output_name ann property_name) (\<lambda>name.
     ebind (iterate qs) (\<lambda>objs.
     ebind (annotate_pk_mapping (normalize_annotation ann) objs) (\<lambda>pk_mapping.
       let sql = case_sql (map annotate_when pk_mapping)
       in Inr (extra qs name sql))))"

section \<open>AnnotatableManager\<close>

text \<open>A manager stands for all records of one kind: the rows of the model's table.\<close>

record manager =
  model :: "pyobj list"

definition get_queryset :: "manager \<Rightarrow> queryset" where
  "get_queryset m = \<lparr>qs_rows = model m, qs_select = [], qs_order = None\<rparr>"

definition manager_sort :: "manager \<Rightarrow> key \<Rightarrow> bool \<Rightarrow> error + queryset" where
  "manager_sort m k reverse = sort (get_queryset m) k reverse"

definition manager_annotate_property ::
    "manager \<Rightarrow> annotation \<Rightarrow> string option \<Rightarrow> error + queryset" where
  "manager_annotate_property m ann property_name =
     annotate_property (get_queryset m) ann property_name"

section \<open>Literals and partial runs of the tokenizer\<close>

text \<open>
  The value that a text denotes when it stands alone as a literal of the expression
  language, and the values whose \<open>repr\<close> is a literal denoting the value itself.
\<close>

definition sql_literal :: "string \<Rightarrow> sqlval option" where
  "sql_literal s =
     (case tokenize s of
        Some [Number n] \<Rightarrow> Some (SqlInt (int n))
      | Some [Minus, Number n] \<Rightarrow> Some (SqlInt (- int n))
      | Some [Text t] \<Rightarrow> Some (SqlText t)
      | _ \<Rightarrow> None)"

definition representable :: "pyval \<Rightarrow> bool" where
  "representable v = (map_option from_sql (sql_literal (py_repr v)) = Some v)"

text \<open>The tokenizer run over a piece of text, giving the tokens and the mode reached.\<close>

fun lex_run :: "lex_mode \<Rightarrow> string \<Rightarrow> (token list \<times> lex_mode) option" where
  "lex_run m [] = Some ([], m)"
| "lex_run m (c # cs) =
     (case lex_step m c of
        None \<Rightarrow> None
      | Some (ts, m') \<Rightarrow>
          (case lex_run m' cs of None \<Rightarrow> None | Some (us, m'') \<Rightarrow> Some (ts @ us, m'')))"

text \<open>The tokens of a rendered integer, and the text of one branch.\<close>

definition int_tokens :: "int \<Rightarrow> token list" where
  "int_tokens i = (if i < 0 then [Minus, Number (nat (- i))] else [Number (nat i)])"

definition when_text :: "int \<Rightarrow> string \<Rightarrow> string" where
  "when_text p lit = ''WHEN id = '' @ str_int p @ '' THEN '' @ lit"

section \<open>The order of integers, strings and pairs of them\<close>

text \<open>
  Lines 26 to 36 of \<open>sort\<close>, on the materialized records: the key is normalized and
  the records are sorted in memory.
\<close>

definition sort_in_memory :: "pyobj list \<Rightarrow> key \<Rightarrow> bool \<Rightarrow> error + pyobj list" where
  "sort_in_memory objs k reverse = ebind (normalize_key k) (\<lambda>keyf. py_sorted objs keyf reverse)"

text \<open>
  An attribute that holds an integer on every record, or a string on every record: the
  values that Python compares without raising.
\<close>

definition holds_int :: "string \<Rightarrow> pyobj \<Rightarrow> bool" where
  "holds_int a obj = (case py_getattr obj a of Inr (VInt i) \<Rightarrow> True | _ \<Rightarrow> False)"

definition holds_str :: "string \<Rightarrow> pyobj \<Rightarrow> bool" where
  "holds_str a obj = (case py_getattr obj a of Inr (VStr s) \<Rightarrow> True | _ \<Rightarrow> False)"

definition uniform_attr :: "pyobj list \<Rightarrow> string \<Rightarrow> bool" where
  "uniform_attr objs a = (list_all (holds_int a) objs \<or> list_all (holds_str a) objs)"

text \<open>
  Integers and strings placed in one linear order each, and pairs of them in the
  lexicographic order of pairs.
\<close>

fun atom_key :: "pyval \<Rightarrow> int \<times> string" where
  "atom_key (VInt i) = (i, [])"
| "atom_key (VStr s) = (0, s)"
| "atom_key _ = (0, [])"

fun pair_key :: "pyval \<Rightarrow> (int \<times> string) \<times> (int \<times> string)" where
  "pair_key (VTuple [u, v]) = (atom_key u, atom_key v)"
| "pair_key _ = ((0, []), (0, []))"

section \<open>Example collections\<close>

text \<open>The two records of the spec's sorting scenario, with a cost each.\<close>

definition rec_b :: pyobj where
  "rec_b = \<lparr>pk = 1, attrs = [(''name'', VStr ''b''), (''cost'', VInt 10)]\<rparr>"

definition rec_a :: pyobj where
  "rec_a = \<lparr>pk = 2, attrs = [(''name'', VStr ''a''), (''cost'', VInt 9)]\<rparr>"

definition two_records :: queryset where
  "two_records = \<lparr>qs_rows = [rec_b, rec_a], qs_select = [], qs_order = None\<rparr>"

text \<open>
  A collection in which one record occurs twice, as a query that joins a related table
  returns it; all three rows have the same cost.
\<close>

definition rec_c :: pyobj where
  "rec_c = \<lparr>pk = 1, attrs = [(''cost'', VInt 5)]\<rparr>"

definition rec_d :: pyobj where
  "rec_d = \<lparr>pk = 2, attrs = [(''cost'', VInt 5)]\<rparr>"

definition joined_rows :: queryset where
  "joined_rows = \<lparr>qs_rows = [rec_c, rec_d, rec_c], qs_select = [], qs_order = None\<rparr>"

text \<open>
  The two records sorted by name in descending order, as \<open>sort\<close> returns them, and the
  same collection after \<open>annotate_property\<close> has attached the cost under the name
  \<open>sort_order\<close>.
\<close>

definition by_name_desc :: queryset where
  "by_name_desc =
     \<lparr>qs_rows = [rec_b, rec_a],
      qs_select = [(''sort_order'', ''CASE WHEN id = 1 THEN 0 WHEN id = 2 THEN 1 END'')],
      qs_order = Some ''sort_order''\<rparr>"

definition cost_as_sort_order :: queryset where
  "cost_as_sort_order =
     \<lparr>qs_rows = [rec_b, rec_a],
      qs_select = [(''sort_order'', ''CASE WHEN id = 1 THEN 10 WHEN id = 2 THEN 9 END'')],
      qs_order = Some ''sort_order''\<rparr>"

definition with_cost_property :: queryset where
  "with_cost_property =
     \<lparr>qs_rows = [rec_b, rec_a],
      qs_select = [(''cost_property'', ''CASE WHEN id = 1 THEN 10 WHEN id = 2 THEN 9 END'')],
      qs_order = None\<rparr>"

text \<open>A record whose note is \<open>None\<close>, and what \<open>annotate_property\<close> makes of it.\<close>

definition rec_n :: pyobj where
  "rec_n = \<lparr>pk = 1, attrs = [(''note'', VNone)]\<rparr>"

definition one_note :: queryset where
  "one_note = \<lparr>qs_rows = [rec_n], qs_select = [], qs_order = None\<rparr>"

definition with_note_property :: queryset where
  "with_note_property =
     \<lparr>qs_rows = [rec_n],
      qs_select = [(''note_property'', ''CASE WHEN id = 1 THEN None END'')],
      qs_order = None\<rparr>"

text \<open>Three records, two of them with the same name.\<close>

definition three_records :: "pyobj list" where
  "three_records =
     [\<lparr>pk = 1, attrs = [(''name'', VStr ''b''), (''cost'', VInt 3)]\<rparr>,
      \<lparr>pk = 2, attrs = [(''name'', VStr ''a''), (''cost'', VInt 7)]\<rparr>,
      \<lparr>pk = 3, attrs = [(''name'', VStr ''a''), (''cost'', VInt 5)]\<rparr>]"

section \<open>Basic facts\<close>

lemma ebind_Inr [simp]: "ebind (Inr x) f = f x"
  by (simp add: ebind_def)

lemma ebind_Inl [simp]: "ebind (Inl e) f = Inl e"
  by (simp add: ebind_def)

lemma ebind_Inr_iff: "ebind m f = Inr y \<longleftrightarrow> (\<exists>x. m = Inr x \<and> f x = Inr y)"
  by (cases m) simp_all

lemma traverse_error: "traverse f xs = Inl e \<Longrightarrow> \<exists>x\<in>set xs. f x = Inl e"
  by (induction xs) (auto split: sum.splits)

lemma traverse_fails: "x \<in> set xs \<Longrightarrow> f x = Inl e \<Longrightarrow> \<exists>e'. traverse f xs = Inl e'"
  by (induction xs) (auto split: sum.splits)

lemma compile_field_error: "compile_field f = Inl e \<Longrightarrow> e = DatabaseError"
  by (auto simp: compile_field_def compile_sql_def split: option.splits sum.splits)

lemma iterate_error: "iterate qs = Inl e \<Longrightarrow> e = DatabaseError"
  by (cases "traverse compile_field (qs_select qs)")
     (auto simp: iterate_def fetch_def Let_def dest!: traverse_error compile_field_error
           split: option.splits)

lemma set_dict_set: "(k, v) \<in> set (dict_set k v d)"
  by (induction d) auto

lemma map_of_dict_set: "map_of (dict_set k v d) = (map_of d)(k \<mapsto> v)"
  by (induction d) (auto simp: fun_eq_iff)

lemma annotate_mapping_error:
  "annotate_pk_mapping (normalize_annotation ann) objs = Inl e
     \<Longrightarrow> e = AttributeError \<or> e = CallableRaised"
  by (cases ann;
      cases "traverse (\<lambda>obj. case normalize_annotation ann obj of
                                 Inl e \<Rightarrow> Inl e | Inr v \<Rightarrow> Inr (pk obj, v)) objs")
     (auto simp: annotate_pk_mapping_def py_getattr_def call_def dest!: traverse_error
           split: sum.splits option.splits)

lemma traverse_length: "traverse f xs = Inr ys \<Longrightarrow> length ys = length xs"
  by (induction xs arbitrary: ys) (auto split: sum.splits)

lemma insert_sorted_mset: "insert_sorted p qs = Inr rs \<Longrightarrow> mset rs = add_mset p (mset qs)"
  by (induction qs arbitrary: rs) (auto split: sum.splits bool.splits)

lemma stable_sort_mset: "stable_sort ps = Inr qs \<Longrightarrow> mset qs = mset ps"
  by (induction ps arbitrary: qs) (auto split: sum.splits dest: insert_sorted_mset)

lemma py_sorted_mset:
  assumes "py_sorted xs keyf reverse = Inr ys"
  shows "mset ys = mset xs"
proof -
  from assms obtain keys where k: "traverse keyf xs = Inr keys"
    by (auto simp: py_sorted_def ebind_Inr_iff)
  then have l: "length keys = length xs" by (rule traverse_length)
  show ?thesis
  proof (cases reverse)
    case True
    with assms k obtain ps where "stable_sort (rev (zip keys xs)) = Inr ps" "ys = map snd (rev ps)"
      by (auto simp: py_sorted_def ebind_Inr_iff)
    then have p: "mset ps = mset (zip keys xs)" and y: "ys = map snd (rev ps)"
      by (auto dest!: stable_sort_mset)
    have "mset ys = image_mset snd (mset ps)" unfolding y by simp
    also have "\<dots> = image_mset snd (mset (zip keys xs))" by (simp only: p)
    also have "\<dots> = mset (map snd (zip keys xs))" by simp
    also have "\<dots> = mset xs" using l by simp
    finally show ?thesis .
  next
    case False
    with assms k obtain ps where "stable_sort (zip keys xs) = Inr ps" "ys = map snd ps"
      by (auto simp: py_sorted_def ebind_Inr_iff)
    then have p: "mset ps = mset (zip keys xs)" and y: "ys = map snd ps"
      by (auto dest!: stable_sort_mset)
    have "mset ys = image_mset snd (mset ps)" unfolding y by simp
    also have "\<dots> = image_mset snd (mset (zip keys xs))" by (simp only: p)
    also have "\<dots> = mset (map snd (zip keys xs))" by simp
    also have "\<dots> = mset xs" using l by simp
    finally show ?thesis .
  qed
qed

lemma dict_set_keys: "fst ` set (dict_set k v d) = insert k (fst ` set d)"
  by (induction d) auto

lemma dict_set_distinct: "distinct (map fst d) \<Longrightarrow> distinct (map fst (dict_set k v d))"
  by (induction d) (auto simp: dict_set_keys)

lemma fold_dict_set_keys:
  "fst ` set (fold (\<lambda>x d. dict_set (f x) (g x) d) xs d0) = f ` set xs \<union> fst ` set d0"
  by (induction xs arbitrary: d0) (simp_all add: dict_set_keys)

lemma fold_dict_set_distinct:
  "distinct (map fst d0) \<Longrightarrow> distinct (map fst (fold (\<lambda>x d. dict_set (f x) (g x) d) xs d0))"
  by (induction xs arbitrary: d0) (auto simp: dict_set_distinct)

lemma sort_pk_mapping_alt:
  "sort_pk_mapping objs = fold (\<lambda>x d. dict_set (pk (snd x)) (fst x) d) (enumerate 0 objs) []"
  by (simp add: sort_pk_mapping_def case_prod_unfold)

lemma sort_pk_mapping_keys: "fst ` set (sort_pk_mapping objs) = pk ` set objs"
proof -
  have "(\<lambda>x. pk (snd x)) ` set (enumerate 0 objs) = pk ` set objs"
    by (metis image_image list.set_map map_snd_enumerate)
  then show ?thesis
    unfolding sort_pk_mapping_alt fold_dict_set_keys by simp
qed

lemma sort_pk_mapping_distinct: "distinct (map fst (sort_pk_mapping objs))"
  unfolding sort_pk_mapping_alt by (rule fold_dict_set_distinct) simp

lemma annotate_pk_mapping_keys:
  assumes "annotate_pk_mapping f objs = Inr m"
  shows "distinct (map fst m) \<and> set (map fst m) = pk ` set objs"
proof -
  let ?g = "\<lambda>obj. case f obj of Inl e \<Rightarrow> Inl e | Inr v \<Rightarrow> Inr (pk obj, v)"
  from assms obtain items where t: "traverse ?g objs = Inr items"
    and m: "m = fold (\<lambda>x d. dict_set (fst x) (snd x) d) items []"
    by (auto simp: annotate_pk_mapping_def ebind_Inr_iff case_prod_unfold)
  have "map fst items = map pk objs" using t
    by (induction objs arbitrary: items) (auto split: sum.splits)
  then have "fst ` set items = pk ` set objs" by (metis list.set_map)
  then show ?thesis unfolding m by (simp add: fold_dict_set_distinct fold_dict_set_keys)
qed

section \<open>Tokenizing and parsing the synthesized text\<close>

lemma lex_run_append:
  "lex_run m (a @ b) =
     (case lex_run m a of None \<Rightarrow> None
      | Some (ts, m') \<Rightarrow> (case lex_run m' b of None \<Rightarrow> None | Some (us, m'') \<Rightarrow> Some (ts @ us, m'')))"
  by (induction a arbitrary: m) (auto split: option.splits)

lemma lex_from_append:
  "lex_from m (a @ b) =
     (case lex_run m a of None \<Rightarrow> None
      | Some (ts, m') \<Rightarrow> (case lex_from m' b of None \<Rightarrow> None | Some us \<Rightarrow> Some (ts @ us)))"
  by (induction a arbitrary: m) (auto split: option.splits)

lemma lex_idle_space: "lex_idle CHR '' '' = Some ([], Idle)"
  by (simp add: lex_idle_def)

lemma lex_finish_space:
  "lex_finish m = Some ts \<Longrightarrow> lex_step m CHR '' '' = Some (ts, Idle)"
  by (cases m) (simp_all add: lex_idle_def emit_def is_digit_def is_letter_def)

lemma lex_from_space:
  "lex_from m s = Some ts \<Longrightarrow> lex_run m (s @ '' '') = Some (ts, Idle)"
proof (induction s arbitrary: m ts)
  case Nil
  then show ?case by (simp add: lex_finish_space)
next
  case (Cons c s)
  then show ?case by (auto split: option.splits)
qed

lemma of_char_digit: "d < 10 \<Longrightarrow> (of_char (digit_char d) :: nat) = 48 + d"
  by (simp add: digit_char_def)

lemma lex_idle_digit: "d < 10 \<Longrightarrow> lex_idle (digit_char d) = Some ([], InNumber d)"
proof -
  assume d: "d < 10"
  have n: "(of_char (digit_char d) :: nat) = 48 + d" using d by (rule of_char_digit)
  have "digit_char d \<noteq> CHR '' ''" "digit_char d \<noteq> CHR ''=''" "digit_char d \<noteq> CHR ''-''"
       "digit_char d \<noteq> CHR 0x27"
    using n d by (auto dest!: arg_cong[where f="of_char :: char \<Rightarrow> nat"])
  then show ?thesis using n d by (simp add: lex_idle_def is_digit_def digit_val_def)
qed

lemma lex_number_digit:
  "d < 10 \<Longrightarrow> lex_step (InNumber n) (digit_char d) = Some ([], InNumber (10 * n + d))"
  by (simp add: is_digit_def digit_val_def of_char_digit)

lemma lex_run_str_nat: "lex_run Idle (str_nat n) = Some ([], InNumber n)"
proof (induction n rule: str_nat.induct)
  case (1 n)
  show ?case
  proof (cases "n < 10")
    case True
    then show ?thesis by (subst str_nat.simps) (simp add: lex_idle_digit)
  next
    case False
    then have "lex_run Idle (str_nat (n div 10)) = Some ([], InNumber (n div 10))" using 1 by simp
    with False show ?thesis
      by (subst str_nat.simps) (simp add: lex_run_append lex_number_digit del: lex_step.simps)
  qed
qed

lemma tokenize_str_int: "tokenize (str_int i) = Some (int_tokens i)"
proof -
  have "lex_from Idle (str_nat n) = Some [Number n]" for n
    using lex_from_append[of Idle "str_nat n" "[]"] by (simp add: lex_run_str_nat)
  then show ?thesis by (simp add: tokenize_def str_int_def int_tokens_def lex_idle_def)
qed

lemma sql_literal_str_int: "sql_literal (str_int i) = Some (SqlInt i)"
  by (simp add: sql_literal_def tokenize_str_int int_tokens_def)

lemma representable_int: "representable (VInt i)"
  by (simp add: representable_def sql_literal_str_int)


lemma parse_from_append:
  "parse_from st (a @ b) = (case parse_from st a of None \<Rightarrow> None | Some st' \<Rightarrow> parse_from st' b)"
  by (induction a arbitrary: st) (auto split: option.splits)

lemma sql_literal_tokens:
  "sql_literal lit = Some v \<Longrightarrow>
     \<exists>toks. tokenize lit = Some toks \<and>
       (\<forall>bs k. parse_from (PLit bs k) toks = Some (PBranch (bs @ [(k, v)])))"
  by (auto simp: sql_literal_def split: option.splits list.splits token.splits)

lemma lex_from_append_Some:
  "lex_run m a = Some (ts, m') \<Longrightarrow> lex_from m' b = Some us
     \<Longrightarrow> lex_from m (a @ b) = Some (ts @ us)"
  by (simp add: lex_from_append)

lemma lex_run_append_Some:
  "lex_run m a = Some (ts, m') \<Longrightarrow> lex_run m' b = Some (us, m'')
     \<Longrightarrow> lex_run m (a @ b) = Some (ts @ us, m'')"
  by (simp add: lex_run_append)

lemma parse_int_tokens: "parse_from (PPk bs) (int_tokens p) = Some (PThen bs p)"
  by (simp add: int_tokens_def)

lemma lex_when:
  assumes "sql_literal lit = Some v"
  shows "\<exists>toks. lex_run Idle (when_text p lit @ '' '') = Some (toks, Idle) \<and>
           (\<forall>bs. parse_from (PBranch bs) toks = Some (PBranch (bs @ [(p, v)])))"
proof -
  from assms obtain lt where lt: "tokenize lit = Some lt"
    and pl: "\<And>bs k. parse_from (PLit bs k) lt = Some (PBranch (bs @ [(k, v)]))"
    using sql_literal_tokens by blast
  have a: "lex_run Idle ''WHEN id = '' = Some ([Word ''WHEN'', Word ''id'', Equals], Idle)"
    by code_simp
  have b: "lex_run Idle (str_int p @ '' '') = Some (int_tokens p, Idle)"
    using tokenize_str_int[of p] by (simp only: tokenize_def lex_from_space)
  have c: "lex_run Idle ''THEN '' = Some ([Word ''THEN''], Idle)"
    by code_simp
  have d: "lex_run Idle (lit @ '' '') = Some (lt, Idle)"
    using lt by (simp only: tokenize_def lex_from_space)
  have e: "when_text p lit @ '' '' = ''WHEN id = '' @ (str_int p @ '' '') @ ''THEN '' @ (lit @ '' '')"
    by (simp add: when_text_def)
  have "lex_run Idle (when_text p lit @ '' '')
          = Some ([Word ''WHEN'', Word ''id'', Equals] @ int_tokens p @ [Word ''THEN''] @ lt, Idle)"
    unfolding e using lex_run_append_Some[OF a lex_run_append_Some[OF b lex_run_append_Some[OF c d]]] .
  moreover have "parse_from (PBranch bs)
          ([Word ''WHEN'', Word ''id'', Equals] @ int_tokens p @ [Word ''THEN''] @ lt)
            = Some (PBranch (bs @ [(p, v)]))" for bs
    by (simp add: parse_from_append parse_int_tokens pl)
  ultimately show ?thesis by blast
qed

lemma lex_whens:
  assumes "\<forall>x\<in>set raw. sql_literal (snd x) \<noteq> None"
  shows "\<exists>toks. lex_run Idle (concat (map (\<lambda>x. when_text (fst x) (snd x) @ '' '') raw))
                   = Some (toks, Idle) \<and>
           (\<forall>bs. parse_from (PBranch bs) toks
                   = Some (PBranch (bs @ map (\<lambda>x. (fst x, the (sql_literal (snd x)))) raw)))"
  using assms
proof (induction raw)
  case Nil
  then show ?case by simp
next
  case (Cons x raw)
  then obtain v where v: "sql_literal (snd x) = Some v" by auto
  from lex_when[OF v, of "fst x"] obtain t1 where
    t1: "lex_run Idle (when_text (fst x) (snd x) @ '' '') = Some (t1, Idle)"
    and p1: "\<And>bs. parse_from (PBranch bs) t1 = Some (PBranch (bs @ [(fst x, v)]))"
    by blast
  from Cons obtain t2 where
    t2: "lex_run Idle (concat (map (\<lambda>x. when_text (fst x) (snd x) @ '' '') raw)) = Some (t2, Idle)"
    and p2: "\<And>bs. parse_from (PBranch bs) t2
               = Some (PBranch (bs @ map (\<lambda>x. (fst x, the (sql_literal (snd x)))) raw))"
    by auto
  have "lex_run Idle (concat (map (\<lambda>x. when_text (fst x) (snd x) @ '' '') (x # raw)))
          = Some (t1 @ t2, Idle)"
  proof -
    have "concat (map (\<lambda>x. when_text (fst x) (snd x) @ '' '') (x # raw))
            = (when_text (fst x) (snd x) @ '' '')
                @ concat (map (\<lambda>x. when_text (fst x) (snd x) @ '' '') raw)"
      by simp
    then show ?thesis using lex_run_append_Some[OF t1 t2] by simp
  qed
  moreover have "parse_from (PBranch bs) (t1 @ t2)
      = Some (PBranch (bs @ map (\<lambda>x. (fst x, the (sql_literal (snd x)))) (x # raw)))" for bs
    by (simp add: parse_from_append p1 p2 v)
  ultimately show ?case by blast
qed

lemma join_space: "ws \<noteq> [] \<Longrightarrow> join sep ws @ sep = concat (map (\<lambda>w. w @ sep) ws)"
  by (induction sep ws rule: join.induct) simp_all

lemma compile_case_sql:
  assumes "raw \<noteq> []" and "\<forall>x\<in>set raw. sql_literal (snd x) \<noteq> None"
  shows "compile_sql (case_sql (map (\<lambda>x. when_text (fst x) (snd x)) raw))
           = Inr (map (\<lambda>x. (fst x, the (sql_literal (snd x)))) raw)"
proof -
  let ?bs = "map (\<lambda>x. (fst x, the (sql_literal (snd x)))) raw"
  from lex_whens[OF assms(2)] obtain toks where
    t: "lex_run Idle (concat (map (\<lambda>x. when_text (fst x) (snd x) @ '' '') raw)) = Some (toks, Idle)"
    and p: "\<And>bs. parse_from (PBranch bs) toks = Some (PBranch (bs @ ?bs))"
    by blast
  have j: "join '' '' (map (\<lambda>x. when_text (fst x) (snd x)) raw) @ '' ''
             = concat (map (\<lambda>x. when_text (fst x) (snd x) @ '' '') raw)"
    using assms(1) by (simp add: join_space comp_def)
  have shape: "case_sql (map (\<lambda>x. when_text (fst x) (snd x)) raw)
          = (''CASE '' @ concat (map (\<lambda>x. when_text (fst x) (snd x) @ '' '') raw)) @ ''END''"
    unfolding case_sql_def j[symmetric] by simp
  have c: "lex_run Idle ''CASE '' = Some ([Word ''CASE''], Idle)" by code_simp
  have e: "lex_from Idle ''END'' = Some [Word ''END'']" by code_simp
  have "tokenize (case_sql (map (\<lambda>x. when_text (fst x) (snd x)) raw))
          = Some (([Word ''CASE''] @ toks) @ [Word ''END''])"
    unfolding shape tokenize_def
    using lex_from_append_Some[OF lex_run_append_Some[OF c t] e] .
  moreover have "parse_case (([Word ''CASE''] @ toks) @ [Word ''END'']) = Some ?bs"
    using assms(1) by (simp add: parse_case_def parse_from_append p)
  ultimately show ?thesis by (simp add: compile_sql_def)
qed

lemma pk_py_setattr [simp]: "pk (py_setattr name v obj) = pk obj"
  by (simp add: py_setattr_def)

lemma pk_row_object [simp]: "pk (row_object cs row) = pk row"
proof -
  have "pk (foldr (\<lambda>f obj. py_setattr (fst f) (g f) obj) cs obj) = pk obj" for g obj
    by (induction cs) simp_all
  then show ?thesis by (simp add: row_object_def)
qed

lemma compile_dict_set:
  "traverse compile_field sel = Inr cs \<Longrightarrow> compile_sql sql = Inr bs
     \<Longrightarrow> traverse compile_field (dict_set name sql sel) = Inr (dict_set name bs cs)"
proof (induction sel arbitrary: cs)
  case Nil
  then show ?case by (simp add: compile_field_def)
next
  case (Cons f sel)
  then show ?case by (auto simp: compile_field_def split: sum.splits)
qed

lemma iterate_compiled:
  "iterate qs = Inr objs \<Longrightarrow>
     \<exists>cs. traverse compile_field (qs_select qs) = Inr cs \<and> fetch cs (qs_rows qs) (qs_order qs) = Inr objs"
  by (simp add: iterate_def ebind_Inr_iff)

lemma insort_key_map:
  "map h (insort_key (\<lambda>x. g (h x)) x xs) = insort_key g (h x) (map h xs)"
  by (induction xs) simp_all

lemma sort_key_map: "map h (sort_key (\<lambda>x. g (h x)) xs) = sort_key g (map h xs)"
  by (induction xs) (simp_all add: insort_key_map)

lemma fetch_pks:
  assumes "fetch cs rows ord = Inr objs"
  shows "map pk objs = (case ord of None \<Rightarrow> map pk rows
        | Some name \<Rightarrow> sort_key (\<lambda>p. sql_ord (eval_case (the (map_of cs name)) p)) (map pk rows))"
proof (cases ord)
  case None
  with assms show ?thesis by (auto simp: fetch_def)
next
  case (Some name)
  with assms obtain bs where bs: "map_of cs name = Some bs"
    and o: "objs = sort_key (\<lambda>obj. sql_ord (eval_case bs (pk obj))) (map (row_object cs) rows)"
    by (auto simp: fetch_def split: option.splits)
  have "map pk objs = sort_key (\<lambda>p. sql_ord (eval_case bs p)) (map pk (map (row_object cs) rows))"
    unfolding o by (rule sort_key_map)
  also have "map pk (map (row_object cs) rows) = map pk rows" by simp
  finally show ?thesis using Some bs by simp
qed

lemma fetch_mset:
  assumes "fetch cs rows ord = Inr objs"
  shows "mset (map pk objs) = mset (map pk rows)"
  using fetch_pks[OF assms] by (cases ord) (simp_all del: mset_map)

lemma iterate_mset: "iterate qs = Inr objs \<Longrightarrow> mset (map pk objs) = mset (map pk (qs_rows qs))"
  by (auto dest!: iterate_compiled fetch_mset)

lemma iterate_extra_ordered:
  assumes "iterate qs = Inr objs" and "compile_sql sql = Inr bs"
  shows "\<exists>objs'. iterate (order_by (extra qs name sql) name) = Inr objs' \<and>
           map pk objs' = sort_key (\<lambda>p. sql_ord (eval_case bs p)) (map pk (qs_rows qs))"
proof -
  from assms(1) obtain cs where cs: "traverse compile_field (qs_select qs) = Inr cs"
    by (auto dest: iterate_compiled)
  have t: "traverse compile_field (dict_set name sql (qs_select qs)) = Inr (dict_set name bs cs)"
    using cs assms(2) by (rule compile_dict_set)
  have m: "map_of (dict_set name bs cs) name = Some bs" by (simp add: map_of_dict_set)
  obtain objs' where f: "fetch (dict_set name bs cs) (qs_rows qs) (Some name) = Inr objs'"
    by (simp add: fetch_def m)
  then have "iterate (order_by (extra qs name sql) name) = Inr objs'"
    by (simp add: iterate_def t order_by_def extra_def)
  moreover from fetch_pks[OF f] have
    "map pk objs' = sort_key (\<lambda>p. sql_ord (eval_case bs p)) (map pk (qs_rows qs))"
    by (simp add: m)
  ultimately show ?thesis by blast
qed

lemma dict_set_fresh: "k \<notin> fst ` set d \<Longrightarrow> dict_set k v d = d @ [(k, v)]"
  by (induction d) auto

lemma fold_dict_set_fresh:
  "distinct (map f xs) \<Longrightarrow> f ` set xs \<inter> fst ` set d0 = {}
     \<Longrightarrow> fold (\<lambda>x d. dict_set (f x) (g x) d) xs d0 = d0 @ map (\<lambda>x. (f x, g x)) xs"
proof (induction xs arbitrary: d0)
  case Nil
  then show ?case by simp
next
  case (Cons x xs)
  then have 1: "dict_set (f x) (g x) d0 = d0 @ [(f x, g x)]" by (simp add: dict_set_fresh)
  have "f ` set xs \<inter> fst ` set (d0 @ [(f x, g x)]) = {}" using Cons.prems by auto
  with Cons show ?case by (simp add: 1)
qed

lemma map_pk_enumerate: "map (\<lambda>x. pk (snd x)) (enumerate n objs) = map pk objs"
  by (induction objs arbitrary: n) simp_all

lemma sort_pk_mapping_distinct_pks:
  assumes "distinct (map pk objs)"
  shows "sort_pk_mapping objs = map (\<lambda>x. (pk (snd x), fst x)) (enumerate 0 objs)"
proof -
  have "map (\<lambda>x. pk (snd x)) (enumerate 0 objs) = map pk objs"
    by (rule map_pk_enumerate)
  then have "distinct (map (\<lambda>x. pk (snd x)) (enumerate 0 objs))" using assms by simp
  from fold_dict_set_fresh[OF this, of "[]" fst] show ?thesis
    by (simp add: sort_pk_mapping_alt)
qed

lemma sort_when_text: "sort_when item = when_text (fst item) (str_int (int (snd item)))"
  by (simp add: sort_when_def when_text_def)

lemma compile_sort_sql:
  assumes "objs \<noteq> []"
  shows "compile_sql (case_sql (map sort_when (sort_pk_mapping objs)))
           = Inr (map (\<lambda>item. (fst item, SqlInt (int (snd item)))) (sort_pk_mapping objs))"
proof -
  let ?raw = "map (\<lambda>item. (fst item, str_int (int (snd item)))) (sort_pk_mapping objs)"
  have "fst ` set (sort_pk_mapping objs) \<noteq> {}" using assms by (simp add: sort_pk_mapping_keys)
  then have ne: "?raw \<noteq> []" by auto
  have lit: "\<forall>x\<in>set ?raw. sql_literal (snd x) \<noteq> None" by (auto simp: sql_literal_str_int)
  have eq: "map sort_when (sort_pk_mapping objs) = map (\<lambda>x. when_text (fst x) (snd x)) ?raw"
    by (simp add: sort_when_text)
  have "map (\<lambda>x. (fst x, the (sql_literal (snd x)))) ?raw
          = map (\<lambda>item. (fst item, SqlInt (int (snd item)))) (sort_pk_mapping objs)"
    by (simp add: sql_literal_str_int)
  then show ?thesis using compile_case_sql[OF ne lit] unfolding eq by simp
qed

lemma rank_of_pk:
  assumes "distinct (map pk objs)" and "i < length objs"
  shows "eval_case (map (\<lambda>item. (fst item, SqlInt (int (snd item)))) (sort_pk_mapping objs))
           (pk (objs ! i)) = SqlInt (int i)"
proof -
  let ?bs = "map (\<lambda>item. (fst item, SqlInt (int (snd item)))) (sort_pk_mapping objs)"
  have bs: "?bs = map (\<lambda>x. (pk (snd x), SqlInt (int (fst x)))) (enumerate 0 objs)"
    by (simp add: sort_pk_mapping_distinct_pks[OF assms(1)] comp_def)
  have "map fst ?bs = map pk objs" unfolding bs
    by (simp add: comp_def map_pk_enumerate)
  then have d: "distinct (map fst ?bs)" using assms(1) by simp
  have "(i, objs ! i) \<in> set (enumerate 0 objs)" using assms(2) by (simp add: in_set_enumerate_eq)
  then have "(\<lambda>x. (pk (snd x), SqlInt (int (fst x)))) (i, objs ! i)
               \<in> (\<lambda>x. (pk (snd x), SqlInt (int (fst x)))) ` set (enumerate 0 objs)"
    by (rule imageI)
  then have "(pk (objs ! i), SqlInt (int i)) \<in> set ?bs" unfolding bs by simp
  with d have "map_of ?bs (pk (objs ! i)) = Some (SqlInt (int i))" by (rule map_of_is_SomeI)
  then show ?thesis by (simp add: eval_case_def)
qed

lemma sort_by_rank:
  assumes "distinct (map pk objs)" and "mset (map pk rows) = mset (map pk objs)"
  shows "sort_key (\<lambda>p. sql_ord (eval_case
            (map (\<lambda>item. (fst item, SqlInt (int (snd item)))) (sort_pk_mapping objs)) p))
           (map pk rows) = map pk objs"
proof (rule sort_key_inj_key_eq[OF assms(2)])
  let ?k = "\<lambda>p. sql_ord (eval_case
            (map (\<lambda>item. (fst item, SqlInt (int (snd item)))) (sort_pk_mapping objs)) p)"
  have r: "?k (pk (objs ! i)) = (1, int i, [])" if "i < length objs" for i
    using rank_of_pk[OF assms(1) that] by simp
  have s: "set (map pk rows) = set (map pk objs)" using assms(2) by (rule mset_eq_setD)
  show "inj_on ?k (set (map pk rows))"
  proof (rule inj_onI)
    fix x y assume "x \<in> set (map pk rows)" "y \<in> set (map pk rows)" and e: "?k x = ?k y"
    then obtain i j where "i < length objs" "x = pk (objs ! i)" "j < length objs" "y = pk (objs ! j)"
      unfolding s by (auto simp: in_set_conv_nth)
    with e r show "x = y" by auto
  qed
  show "sorted (map ?k (map pk objs))"
    by (auto simp: sorted_iff_nth_mono r less_eq_prod_def)
qed

lemma py_getattr_setattr:
  "py_getattr (py_setattr n v obj) name = (if name = n then Inr v else py_getattr obj name)"
  by (simp add: py_getattr_def py_setattr_def map_of_dict_set)

lemma py_getattr_row_object:
  "py_getattr (row_object cs row) name =
     (case map_of cs name of
        None \<Rightarrow> py_getattr row name
      | Some bs \<Rightarrow> Inr (from_sql (eval_case bs (pk row))))"
  unfolding row_object_def
  by (induction cs) (auto simp: py_getattr_setattr split: option.splits)

lemma map_of_compiled:
  "traverse compile_field sel = Inr cs \<Longrightarrow>
     map_of cs name = (case map_of sel name of None \<Rightarrow> None
        | Some sql \<Rightarrow> (case compile_sql sql of Inl e \<Rightarrow> None | Inr bs \<Rightarrow> Some bs))"
  by (induction sel arbitrary: cs) (auto simp: compile_field_def split: sum.splits)

lemma map_of_fold_dict_set:
  "(\<forall>x\<in>set xs. f x = k \<longrightarrow> g x = v) \<Longrightarrow> k \<in> f ` set xs \<or> map_of d0 k = Some v
     \<Longrightarrow> map_of (fold (\<lambda>x d. dict_set (f x) (g x) d) xs d0) k = Some v"
proof (induction xs arbitrary: d0)
  case Nil
  then show ?case by simp
next
  case (Cons x xs)
  have "k \<in> f ` set xs \<or> map_of (dict_set (f x) (g x) d0) k = Some v"
    using Cons.prems by (auto simp: map_of_dict_set)
  moreover have "\<forall>x\<in>set xs. f x = k \<longrightarrow> g x = v" using Cons.prems by simp
  ultimately show ?case using Cons.IH by simp
qed

lemma set_fetch:
  "fetch cs rows ord = Inr objs \<Longrightarrow> set objs = row_object cs ` set rows"
  by (auto simp: fetch_def Let_def split: option.splits)

lemma annotate_property_result:
  assumes "annotate_property qs ann property_name = Inr qs'"
  obtains name objs pk_mapping where "output_name ann property_name = Inr name"
    and "iterate qs = Inr objs"
    and "annotate_pk_mapping (normalize_annotation ann) objs = Inr pk_mapping"
    and "qs' = extra qs name (case_sql (map annotate_when pk_mapping))"
  using assms by (auto simp: annotate_property_def ebind_Inr_iff)

lemma iterate_pks:
  assumes "iterate qs = Inr objs"
  shows "map pk objs =
     (case qs_order qs of None \<Rightarrow> map pk (qs_rows qs)
      | Some f \<Rightarrow>
          sort_key (\<lambda>p. sql_ord (eval_case
             (case compile_sql (the (map_of (qs_select qs) f)) of Inr bs \<Rightarrow> bs) p))
            (map pk (qs_rows qs)))"
proof -
  from assms obtain cs where cs: "traverse compile_field (qs_select qs) = Inr cs"
    and f: "fetch cs (qs_rows qs) (qs_order qs) = Inr objs"
    by (auto dest: iterate_compiled)
  show ?thesis
  proof (cases "qs_order qs")
    case None
    with fetch_pks[OF f] show ?thesis by simp
  next
    case (Some name)
    with f obtain bs where bs: "map_of cs name = Some bs"
      by (auto simp: fetch_def split: option.splits)
    with map_of_compiled[OF cs, of name]
    have "(case compile_sql (the (map_of (qs_select qs) name)) of Inr bs \<Rightarrow> bs) = bs"
      by (auto split: option.splits sum.splits)
    with fetch_pks[OF f] Some bs show ?thesis by simp
  qed
qed

lemma traverse_all_Inr:
  "\<forall>x\<in>set xs. \<exists>y. g x = Inr y \<Longrightarrow> traverse g xs = Inr (map (\<lambda>x. projr (g x)) xs)"
  by (induction xs) auto

lemma set_dict_set_subset: "set (dict_set k v d) \<subseteq> insert (k, v) (set d)"
  by (induction d) auto

lemma set_fold_dict_set:
  "set (fold (\<lambda>x d. dict_set (f x) (g x) d) xs d0) \<subseteq> set d0 \<union> (\<lambda>x. (f x, g x)) ` set xs"
proof (induction xs arbitrary: d0)
  case Nil
  then show ?case by simp
next
  case (Cons x xs)
  have "set (fold (\<lambda>x d. dict_set (f x) (g x) d) xs (dict_set (f x) (g x) d0))
          \<subseteq> set (dict_set (f x) (g x) d0) \<union> (\<lambda>x. (f x, g x)) ` set xs"
    by (rule Cons.IH)
  also have "\<dots> \<subseteq> insert (f x, g x) (set d0) \<union> (\<lambda>x. (f x, g x)) ` set xs"
    using set_dict_set_subset[of "f x" "g x" d0] by blast
  finally show ?case by auto
qed

lemma annotate_when_text: "annotate_when item = when_text (fst item) (py_repr (snd item))"
  by (simp add: annotate_when_def when_text_def)

lemma annotate_pk_mapping_total:
  assumes "\<forall>obj\<in>set objs. \<exists>v. f obj = Inr v"
  shows "annotate_pk_mapping f objs
           = Inr (fold (\<lambda>obj d. dict_set (pk obj) (projr (f obj)) d) objs [])"
proof -
  let ?g = "\<lambda>obj. case f obj of Inl e \<Rightarrow> Inl e | Inr v \<Rightarrow> Inr (pk obj, v)"
  have "\<forall>obj\<in>set objs. \<exists>y. ?g obj = Inr y" using assms by auto
  then have t: "traverse ?g objs = Inr (map (\<lambda>obj. projr (?g obj)) objs)"
    by (rule traverse_all_Inr)
  have e: "map (\<lambda>obj. projr (?g obj)) objs = map (\<lambda>obj. (pk obj, projr (f obj))) objs"
    using assms by auto
  have "annotate_pk_mapping f objs
          = Inr (fold (\<lambda>x d. dict_set (fst x) (snd x) d)
                   (map (\<lambda>obj. (pk obj, projr (f obj))) objs) [])"
    unfolding annotate_pk_mapping_def t e by (simp add: case_prod_unfold)
  then show ?thesis by (simp add: fold_map comp_def)
qed

lemma iterate_extra:
  assumes "iterate qs = Inr objs" and "compile_sql sql = Inr bs"
  shows "\<exists>cs objs'. iterate (extra qs name sql) = Inr objs' \<and>
           fetch (dict_set name bs cs) (qs_rows qs) (qs_order qs) = Inr objs'"
proof -
  from assms(1) obtain cs where cs: "traverse compile_field (qs_select qs) = Inr cs"
    and f: "fetch cs (qs_rows qs) (qs_order qs) = Inr objs"
    by (auto dest: iterate_compiled)
  have t: "traverse compile_field (dict_set name sql (qs_select qs)) = Inr (dict_set name bs cs)"
    using cs assms(2) by (rule compile_dict_set)
  have "\<exists>objs'. fetch (dict_set name bs cs) (qs_rows qs) (qs_order qs) = Inr objs'"
  proof (cases "qs_order qs")
    case None
    then show ?thesis by (simp add: fetch_def)
  next
    case (Some g)
    with f obtain b where "map_of cs g = Some b"
      by (auto simp: fetch_def split: option.splits)
    then have "\<exists>b'. map_of (dict_set name bs cs) g = Some b'"
      by (simp add: map_of_dict_set)
    then show ?thesis using Some by (auto simp: fetch_def)
  qed
  then obtain objs' where f': "fetch (dict_set name bs cs) (qs_rows qs) (qs_order qs) = Inr objs'"
    by blast
  then have "iterate (extra qs name sql) = Inr objs'"
    by (simp add: iterate_def t extra_def)
  with f' show ?thesis by blast
qed

lemma map_of_map_snd:
  "map_of (map (\<lambda>x. (fst x, h (snd x))) d) k = map_option h (map_of d k)"
  by (induction d) auto

lemma annotate_compiles:
  assumes "objs \<noteq> []" and "\<forall>obj\<in>set objs. \<exists>v. f obj = Inr v \<and> representable v"
    and "inj_on pk (set objs)"
  shows "\<exists>m bs. annotate_pk_mapping f objs = Inr m \<and>
           compile_sql (case_sql (map annotate_when m)) = Inr bs \<and>
           (\<forall>obj\<in>set objs. Inr (from_sql (eval_case bs (pk obj))) = f obj)"
proof -
  let ?val = "\<lambda>obj. projr (f obj)"
  let ?m = "fold (\<lambda>obj d. dict_set (pk obj) (?val obj) d) objs []"
  let ?raw = "map (\<lambda>x. (fst x, py_repr (snd x))) ?m"
  let ?bs = "map (\<lambda>x. (fst x, the (sql_literal (snd x)))) ?raw"
  have tot: "\<forall>obj\<in>set objs. \<exists>v. f obj = Inr v" using assms(2) by blast
  have m: "annotate_pk_mapping f objs = Inr ?m" using tot by (rule annotate_pk_mapping_total)
  have rep: "representable (?val obj)" if "obj \<in> set objs" for obj
    using assms(2) that by force
  have vals: "representable (snd x)" if "x \<in> set ?m" for x
  proof -
    from that set_fold_dict_set[of pk ?val objs "[]"]
    obtain obj where "obj \<in> set objs" "x = (pk obj, ?val obj)" by auto
    then show ?thesis using rep by simp
  qed
  have "fst ` set ?m = pk ` set objs" by (simp add: fold_dict_set_keys)
  then have "set ?m \<noteq> {}" using assms(1) by auto
  then have ne: "?raw \<noteq> []" by simp
  have lit: "\<forall>x\<in>set ?raw. sql_literal (snd x) \<noteq> None"
    using vals by (auto simp: representable_def)
  have eq: "map annotate_when ?m = map (\<lambda>x. when_text (fst x) (snd x)) ?raw"
    by (simp add: annotate_when_text)
  have c: "compile_sql (case_sql (map annotate_when ?m)) = Inr ?bs"
    unfolding eq using ne lit by (rule compile_case_sql)
  have "Inr (from_sql (eval_case ?bs (pk obj))) = f obj" if o: "obj \<in> set objs" for obj
  proof -
    have "\<forall>x\<in>set objs. pk x = pk obj \<longrightarrow> ?val x = ?val obj"
      using assms(3) o by (auto dest: inj_onD)
    moreover have "pk obj \<in> pk ` set objs" using o by simp
    ultimately have mo: "map_of ?m (pk obj) = Some (?val obj)"
      by (intro map_of_fold_dict_set) auto
    have "map_of ?raw (pk obj) = Some (py_repr (?val obj))"
      using map_of_map_snd[of py_repr ?m "pk obj"] mo by simp
    then have "map_of ?bs (pk obj) = Some (the (sql_literal (py_repr (?val obj))))"
      using map_of_map_snd[of "\<lambda>v. the (sql_literal v)" ?raw "pk obj"] by simp
    then have "eval_case ?bs (pk obj) = the (sql_literal (py_repr (?val obj)))"
      by (simp add: eval_case_def)
    moreover have "from_sql (the (sql_literal (py_repr (?val obj)))) = ?val obj"
      using rep[OF o] by (auto simp: representable_def)
    moreover have "f obj = Inr (?val obj)" using tot o by force
    ultimately show ?thesis by simp
  qed
  with m c show ?thesis by blast
qed

lemma insert_sorted_insort:
  fixes phi :: "pyval \<Rightarrow> 'o::linorder"
  assumes "\<forall>q\<in>set qs. py_lt (fst q) (fst p) = Inr (phi (fst q) < phi (fst p))"
  shows "insert_sorted p qs = Inr (insort_key (\<lambda>q. phi (fst q)) p qs)"
  using assms by (induction qs) (auto simp: not_le split: bool.splits)

lemma stable_sort_sort_key:
  fixes phi :: "pyval \<Rightarrow> 'o::linorder"
  assumes "\<forall>p\<in>set ps. \<forall>q\<in>set ps. py_lt (fst q) (fst p) = Inr (phi (fst q) < phi (fst p))"
  shows "stable_sort ps = Inr (sort_key (\<lambda>q. phi (fst q)) ps)"
  using assms
proof (induction ps)
  case Nil
  then show ?case by simp
next
  case (Cons p ps)
  then have "stable_sort ps = Inr (sort_key (\<lambda>q. phi (fst q)) ps)" by simp
  moreover have "\<forall>q\<in>set (sort_key (\<lambda>q. phi (fst q)) ps).
      py_lt (fst q) (fst p) = Inr (phi (fst q) < phi (fst p))"
    using Cons.prems by simp
  ultimately show ?case by (simp add: insert_sorted_insort)
qed

lemma sort_key_decorated:
  "map snd (sort_key (\<lambda>q. phi (fst q)) (map (\<lambda>x. (kv x, x)) xs)) = sort_key (\<lambda>x. phi (kv x)) xs"
proof -
  have "sort_key (\<lambda>q. phi (fst q)) (map (\<lambda>x. (kv x, x)) xs)
          = map (\<lambda>x. (kv x, x)) (sort_key (\<lambda>x. phi (fst (kv x, x))) xs)"
    by (rule sort_key_map[symmetric])
  then show ?thesis by (simp add: comp_def)
qed

lemma py_sorted_sort_key:
  fixes phi :: "pyval \<Rightarrow> 'o::linorder"
  assumes "\<forall>x\<in>set xs. keyf x = Inr (kv x)"
    and "\<forall>x\<in>set xs. \<forall>y\<in>set xs. py_lt (kv x) (kv y) = Inr (phi (kv x) < phi (kv y))"
  shows "py_sorted xs keyf reverse =
           Inr (if reverse then rev (sort_key (\<lambda>x. phi (kv x)) (rev xs))
                else sort_key (\<lambda>x. phi (kv x)) xs)"
proof -
  have "\<forall>x\<in>set xs. \<exists>y. keyf x = Inr y" using assms(1) by simp
  then have "traverse keyf xs = Inr (map (\<lambda>x. projr (keyf x)) xs)" by (rule traverse_all_Inr)
  moreover have "map (\<lambda>x. projr (keyf x)) xs = map kv xs" using assms(1) by simp
  ultimately have t: "traverse keyf xs = Inr (map kv xs)" by simp
  have z: "zip (map kv ys) ys = map (\<lambda>x. (kv x, x)) ys" for ys :: "'a list"
    by (induction ys) simp_all
  have c: "\<forall>p\<in>set (map (\<lambda>x. (kv x, x)) ys). \<forall>q\<in>set (map (\<lambda>x. (kv x, x)) ys).
             py_lt (fst q) (fst p) = Inr (phi (fst q) < phi (fst p))"
    if "set ys = set xs" for ys
    using assms(2) that by auto
  show ?thesis
  proof (cases reverse)
    case False
    have "stable_sort (zip (map kv xs) xs) = Inr (sort_key (\<lambda>q. phi (fst q)) (map (\<lambda>x. (kv x, x)) xs))"
      unfolding z by (rule stable_sort_sort_key) (rule c, simp)
    with False t show ?thesis by (simp add: py_sorted_def sort_key_decorated)
  next
    case True
    have r: "rev (zip (map kv xs) xs) = map (\<lambda>x. (kv x, x)) (rev xs)"
      unfolding z by (simp add: rev_map)
    have s: "stable_sort (map (\<lambda>x. (kv x, x)) (rev xs))
        = Inr (sort_key (\<lambda>q. phi (fst q)) (map (\<lambda>x. (kv x, x)) (rev xs)))"
      by (rule stable_sort_sort_key) (rule c, simp)
    have "py_sorted xs keyf True
            = Inr (map snd (rev (sort_key (\<lambda>q. phi (fst q)) (map (\<lambda>x. (kv x, x)) (rev xs)))))"
      by (simp only: py_sorted_def t ebind_Inr if_True r s)
    also have "map snd (rev (sort_key (\<lambda>q. phi (fst q)) (map (\<lambda>x. (kv x, x)) (rev xs))))
                 = rev (sort_key (\<lambda>x. phi (kv x)) (rev xs))"
      using sort_key_decorated[of phi kv "rev xs"]
        rev_map[of snd "sort_key (\<lambda>q. phi (fst q)) (map (\<lambda>x. (kv x, x)) (rev xs))"]
      by (simp only:)
    finally show ?thesis using True by simp
  qed
qed

lemma sorted_wrt_by_groups:
  fixes f :: "'a \<Rightarrow> 'k::linorder"
  assumes "sorted (map f ys)"
    and "\<And>k. sorted_wrt R (filter (\<lambda>y. f y = k) ys)"
    and "\<And>a b. f a < f b \<Longrightarrow> R a b"
  shows "sorted_wrt R ys"
  using assms(1,2)
proof (induction ys)
  case Nil
  then show ?case by simp
next
  case (Cons a ys)
  have "R a b" if "b \<in> set ys" for b
  proof (cases "f a < f b")
    case True
    then show ?thesis by (rule assms(3))
  next
    case False
    with Cons.prems(1) that have "f b = f a" by auto
    with Cons.prems(2)[of "f a"] that show ?thesis by auto
  qed
  moreover have "sorted_wrt R (filter (\<lambda>y. f y = k) ys)" for k
    using Cons.prems(2)[of k] by (cases "f a = k") auto
  moreover have "sorted (map f ys)" using Cons.prems(1) by simp
  ultimately show ?case using Cons.IH by simp
qed

lemma sort_key_lexicographic:
  fixes f :: "'a \<Rightarrow> 'k::linorder" and g :: "'a \<Rightarrow> 'l::linorder"
  shows "sort_key (\<lambda>x. (f x, g x)) xs = sort_key f (sort_key g xs)"
proof (rule properties_for_sort_key)
  let ?ys = "sort_key f (sort_key g xs)"
  show "mset ?ys = mset xs" by simp
  show "filter (\<lambda>x. (f k, g k) = (f x, g x)) ?ys = filter (\<lambda>x. (f k, g k) = (f x, g x)) xs" for k
  proof -
    let ?P = "\<lambda>x. (f k, g k) = (f x, g x)"
    let ?F = "\<lambda>x. f x = f k" and ?G = "\<lambda>x. g x = g k"
    have 1: "filter ?P zs = filter ?G (filter ?F zs)" for zs
      by (induction zs) auto
    have "filter ?P ?ys = filter ?G (filter ?F ?ys)" by (rule 1)
    also have "\<dots> = filter ?G (filter ?F (sort_key g xs))" by (simp only: sort_key_stable)
    also have "\<dots> = filter ?F (filter ?G (sort_key g xs))" by (simp add: conj_commute)
    also have "\<dots> = filter ?F (filter ?G xs)" by (simp only: sort_key_stable)
    also have "\<dots> = filter ?G (filter ?F xs)" by (simp add: conj_commute)
    also have "\<dots> = filter ?P xs" by (rule 1[symmetric])
    finally show ?thesis .
  qed
  have "sorted_wrt (\<lambda>a b. (f a, g a) \<le> (f b, g b)) ?ys"
  proof (rule sorted_wrt_by_groups[where f=f])
    show "sorted (map f ?ys)" by (rule sorted_sort_key)
    show "(f a, g a) \<le> (f b, g b)" if "f a < f b" for a b
      using that by (simp add: less_eq_prod_def)
    show "sorted_wrt (\<lambda>a b. (f a, g a) \<le> (f b, g b)) (filter (\<lambda>y. f y = k) ?ys)" for k
    proof -
      have e: "filter (\<lambda>y. f y = k) ?ys = sort_key g (filter (\<lambda>y. f y = k) xs)"
        by (simp add: sort_key_stable filter_sort)
      have "sorted (map g (sort_key g (filter (\<lambda>y. f y = k) xs)))" by (rule sorted_sort_key)
      then have "sorted_wrt (\<lambda>a b. g a \<le> g b) (sort_key g (filter (\<lambda>y. f y = k) xs))"
        by (simp add: sorted_map)
      then show ?thesis unfolding e
        by (rule sorted_wrt_mono_rel[rotated]) (auto simp: less_eq_prod_def)
    qed
  qed
  then show "sorted (map (\<lambda>x. (f x, g x)) ?ys)" by (simp add: sorted_map)
qed

lemma sort_uses_sort_in_memory:
  "iterate qs = Inr objs \<Longrightarrow>
   sort qs k reverse =
     ebind (sort_in_memory objs k reverse) (\<lambda>sorted_objects.
       if sorted_objects = [] then Inr qs
       else Inr (order_by (extra qs ''sort_order''
              (case_sql (map sort_when (sort_pk_mapping sorted_objects)))) ''sort_order''))"
  unfolding sort_def sort_in_memory_def Let_def by (cases "normalize_key k") simp_all

lemma holds_intD: "holds_int a x \<Longrightarrow> \<exists>i. py_getattr x a = Inr (VInt i)"
  by (cases "py_getattr x a"; cases "projr (py_getattr x a)") (auto simp: holds_int_def)

lemma holds_strD: "holds_str a x \<Longrightarrow> \<exists>s. py_getattr x a = Inr (VStr s)"
  by (cases "py_getattr x a"; cases "projr (py_getattr x a)") (auto simp: holds_str_def)

lemma uniform_attr_values:
  assumes "uniform_attr objs a" and "x \<in> set objs" and "y \<in> set objs"
  shows "py_getattr x a = Inr (projr (py_getattr x a)) \<and>
         py_lt (projr (py_getattr x a)) (projr (py_getattr y a))
           = Inr (atom_key (projr (py_getattr x a)) < atom_key (projr (py_getattr y a))) \<and>
         (projr (py_getattr x a) = projr (py_getattr y a))
           = (atom_key (projr (py_getattr x a)) = atom_key (projr (py_getattr y a)))"
proof -
  from assms(1) consider "\<forall>x\<in>set objs. \<exists>i. py_getattr x a = Inr (VInt i)"
    | "\<forall>x\<in>set objs. \<exists>s. py_getattr x a = Inr (VStr s)"
    unfolding uniform_attr_def list_all_iff using holds_intD holds_strD by blast
  then show ?thesis
  proof cases
    case 1
    with assms(2,3) obtain i j where "py_getattr x a = Inr (VInt i)" "py_getattr y a = Inr (VInt j)"
      by blast
    then show ?thesis by (simp add: less_prod_def)
  next
    case 2
    with assms(2,3) obtain s t where "py_getattr x a = Inr (VStr s)" "py_getattr y a = Inr (VStr t)"
      by blast
    then show ?thesis by (simp add: less_prod_def)
  qed
qed

lemma uniform_attr_set: "set ys = set objs \<Longrightarrow> uniform_attr ys a = uniform_attr objs a"
  by (simp add: uniform_attr_def list_all_iff)

lemma lex_run_text:
  "CHR 0x27 \<notin> set s \<Longrightarrow> lex_run (InText acc) s = Some ([], InText (rev s @ acc))"
  by (induction s arbitrary: acc) auto

lemma tokenize_quoted:
  assumes "CHR 0x27 \<notin> set s"
  shows "tokenize (CHR 0x27 # s @ [CHR 0x27]) = Some [Text s]"
proof -
  have "lex_from (InText []) (s @ [CHR 0x27]) = Some ([] @ [Text s])"
    by (rule lex_from_append_Some[OF lex_run_text[OF assms]]) simp
  then show ?thesis by (simp add: tokenize_def lex_idle_def)
qed

lemma representable_plain_str:
  assumes "\<forall>c\<in>set s. c \<noteq> CHR 0x27 \<and> repr_char (CHR 0x27) c = [c]"
  shows "representable (VStr s)"
proof -
  have q: "CHR 0x27 \<notin> set s" using assms by blast
  have "concat (map (repr_char (CHR 0x27)) s) = s" using assms by (induction s) auto
  then have "repr_str s = CHR 0x27 # s @ [CHR 0x27]" using q by (simp add: repr_str_def Let_def)
  then show ?thesis by (simp add: representable_def sql_literal_def tokenize_quoted[OF q])
qed

section \<open>The forwarding layer\<close>

text \<open>
  Claim C9. The manager's \<open>sort\<close> and \<open>annotate_property\<close> return what the queryset
  operations return on the manager's default collection, with the same arguments.
\<close>

theorem manager_forwards:
  "manager_sort m k reverse = sort (get_queryset m) k reverse \<and>
   manager_annotate_property m ann property_name =
     annotate_property (get_queryset m) ann property_name"
  by (simp add: manager_sort_def manager_annotate_property_def)

theorem manager_forwards_witness:
  "manager_sort \<lparr>model = []\<rparr> (KStr ''name'') True
     = sort (get_queryset \<lparr>model = []\<rparr>) (KStr ''name'') True \<and>
   manager_annotate_property \<lparr>model = []\<rparr> (AStr ''name'') None
     = annotate_property (get_queryset \<lparr>model = []\<rparr>) (AStr ''name'') None"
  using manager_forwards [of "\<lparr>model = []\<rparr>" "KStr ''name''" True "AStr ''name''" None]
  by simp

section \<open>The name of the computed field\<close>

text \<open>
  Claim C4. \<open>annotate_property\<close> raises its \<open>ValueError\<close> exactly when the annotation is
  a callable and no output name is given; with an attribute name and no output name it
  behaves as if the output name were the attribute name followed by \<open>_property\<close>.
\<close>

theorem annotate_property_value_error:
  "(annotate_property qs ann property_name = Inl ValueError
      \<longleftrightarrow> (\<exists>f. ann = ACallable f) \<and> property_name = None) \<and>
   annotate_property qs (AStr a) None
     = annotate_property qs (AStr a) (Some (a @ ''_property''))"
proof -
  have 1: "annotate_property qs (ACallable f) None = Inl ValueError" for f
    by (simp add: annotate_property_def)
  have 2: "annotate_property qs ann property_name \<noteq> Inl ValueError"
    if "output_name ann property_name = Inr name" for name
  proof
    assume a: "annotate_property qs ann property_name = Inl ValueError"
    show False
    proof (cases "iterate qs")
      case (Inl e)
      with a that iterate_error[of qs e] show False by (simp add: annotate_property_def)
    next
      case (Inr objs)
      with a that show False
        by (cases "annotate_pk_mapping (normalize_annotation ann) objs")
           (auto simp: annotate_property_def Let_def dest: annotate_mapping_error)
    qed
  qed
  have 3: "(\<exists>f. ann = ACallable f) \<and> property_name = None \<or>
           (\<exists>name. output_name ann property_name = Inr name)"
    by (cases ann; cases property_name) auto
  show ?thesis using 1 2 3 by (auto simp: annotate_property_def)
qed

section \<open>The empty collection\<close>

text \<open>
  Claim C10. On an empty collection \<open>sort\<close> returns the collection itself for every
  attribute-name key and every tuple key that names an attribute, whatever the names:
  the key is applied to no record, so no attribute lookup can fail.
\<close>

theorem sort_empty_missing_attribute:
  assumes "iterate qs = Inr []" and "names \<noteq> []"
  shows "sort qs (KStr name) reverse = Inr qs \<and> sort qs (KTuple names) reverse = Inr qs"
proof -
  obtain n ns where "names = n # ns" using assms(2) by (cases names) auto
  then have "\<exists>kf. attrgetter names = Inr kf" by (cases ns) auto
  then show ?thesis using assms(1) by (auto simp: sort_def py_sorted_def)
qed

theorem sort_empty_missing_attribute_witness:
  "iterate \<lparr>qs_rows = [], qs_select = [], qs_order = None\<rparr> = Inr [] \<and>
   sort \<lparr>qs_rows = [], qs_select = [], qs_order = None\<rparr> (KStr ''missing'') True
     = Inr \<lparr>qs_rows = [], qs_select = [], qs_order = None\<rparr> \<and>
   sort \<lparr>qs_rows = [], qs_select = [], qs_order = None\<rparr> (KTuple [''missing'', ''absent'']) True
     = Inr \<lparr>qs_rows = [], qs_select = [], qs_order = None\<rparr>"
  using sort_empty_missing_attribute
    [of "\<lparr>qs_rows = [], qs_select = [], qs_order = None\<rparr>" "[''missing'', ''absent'']"
        "''missing''" True]
  by (simp add: iterate_def fetch_def)

text \<open>
  Claim C3, as stated, fails for the empty tuple as key: \<open>attrgetter()\<close> raises
  \<open>TypeError\<close> on line 30, before the collection is looked at.
\<close>

theorem sort_empty_tuple_counterexample:
  "iterate \<lparr>qs_rows = [], qs_select = [], qs_order = None\<rparr> = Inr [] \<and>
   sort \<lparr>qs_rows = [], qs_select = [], qs_order = None\<rparr> (KTuple []) False = Inl TypeError"
  by (simp add: iterate_def fetch_def sort_def)

text \<open>
  Claim C3, amended. For every key other than the empty tuple and for both values of the
  reverse flag, \<open>sort\<close> on an empty collection returns the collection itself: no error is
  raised and no expression is attached.
\<close>

theorem sort_empty_noop:
  assumes "iterate qs = Inr []" and "k \<noteq> KTuple []"
  shows "sort qs k reverse = Inr qs"
proof -
  have "\<exists>kf. normalize_key k = Inr kf"
  proof (cases k)
    case (KTuple names)
    with assms(2) obtain n ns where "names = n # ns" by (cases names) auto
    with KTuple show ?thesis by (cases ns) auto
  qed auto
  then show ?thesis using assms(1) by (auto simp: sort_def py_sorted_def)
qed

theorem sort_empty_noop_witness:
  "iterate \<lparr>qs_rows = [], qs_select = [], qs_order = None\<rparr> = Inr [] \<and>
   KCallable (\<lambda>obj. None) \<noteq> KTuple [] \<and>
   sort \<lparr>qs_rows = [], qs_select = [], qs_order = None\<rparr> (KCallable (\<lambda>obj. None)) True
     = Inr \<lparr>qs_rows = [], qs_select = [], qs_order = None\<rparr>"
  using sort_empty_noop
    [of "\<lparr>qs_rows = [], qs_select = [], qs_order = None\<rparr>" "KCallable (\<lambda>obj. None)" True]
  by (simp add: iterate_def fetch_def)

text \<open>
  Claim C6. On an empty collection \<open>annotate_property\<close> neither raises nor returns the
  collection unchanged: it attaches the expression \<open>CASE  END\<close>, which has no branch and
  which the database refuses, so that the returned collection cannot be iterated.
\<close>

theorem annotate_empty_malformed:
  assumes "output_name ann property_name = Inr name" and "iterate qs = Inr []"
  shows "annotate_property qs ann property_name = Inr (extra qs name ''CASE  END'') \<and>
         compile_sql ''CASE  END'' = Inl DatabaseError \<and>
         iterate (extra qs name ''CASE  END'') = Inl DatabaseError \<and>
         extra qs name ''CASE  END'' \<noteq> qs"
proof -
  have c: "compile_sql ''CASE  END'' = Inl DatabaseError" by code_simp
  have a: "annotate_property qs ann property_name = Inr (extra qs name ''CASE  END'')"
    using assms by (simp add: annotate_property_def annotate_pk_mapping_def case_sql_def)
  have "compile_field (name, ''CASE  END'') = Inl DatabaseError"
    using c by (simp add: compile_field_def)
  then obtain e where e: "traverse compile_field (qs_select (extra qs name ''CASE  END'')) = Inl e"
    using traverse_fails[OF set_dict_set, of compile_field name "''CASE  END''" DatabaseError
            "qs_select qs"]
    by (auto simp: extra_def)
  then have i: "iterate (extra qs name ''CASE  END'') = Inl e" by (simp add: iterate_def fetch_def)
  then have "e = DatabaseError" by (rule iterate_error)
  moreover have "extra qs name ''CASE  END'' \<noteq> qs" using i assms(2) by auto
  ultimately show ?thesis using a c i by simp
qed

theorem annotate_empty_malformed_witness:
  "output_name (AStr ''name'') None = Inr ''name_property'' \<and>
   iterate \<lparr>qs_rows = [], qs_select = [], qs_order = None\<rparr> = Inr [] \<and>
   annotate_property \<lparr>qs_rows = [], qs_select = [], qs_order = None\<rparr> (AStr ''name'') None
     = Inr \<lparr>qs_rows = [], qs_select = [(''name_property'', ''CASE  END'')], qs_order = None\<rparr> \<and>
   iterate \<lparr>qs_rows = [], qs_select = [(''name_property'', ''CASE  END'')], qs_order = None\<rparr>
     = Inl DatabaseError"
  using annotate_empty_malformed
    [of "AStr ''name''" None "''name_property''"
        "\<lparr>qs_rows = [], qs_select = [], qs_order = None\<rparr>"]
  by (simp add: iterate_def fetch_def extra_def)

section \<open>The identity-to-value mapping\<close>

text \<open>
  Claim C7. In both operations the expression attached to the returned collection is
  the rendering of the mapping built from the materialized records and the key alone,
  one \<open>WHEN\<close> branch per entry, and the entries' identifiers are pairwise distinct and
  are exactly the identifiers of the collection's records: every identifier appears in
  exactly one branch.
\<close>

theorem identifiers_once:
  "(iterate qs = Inr objs \<and> normalize_key k = Inr keyf \<and>
    py_sorted objs keyf reverse = Inr sorted_objects \<and> sorted_objects \<noteq> []
    \<longrightarrow> sort qs k reverse =
          Inr (order_by (extra qs ''sort_order''
                 (case_sql (map sort_when (sort_pk_mapping sorted_objects)))) ''sort_order'') \<and>
        distinct (map fst (sort_pk_mapping sorted_objects)) \<and>
        set (map fst (sort_pk_mapping sorted_objects)) = pk ` set objs) \<and>
   (iterate qs = Inr objs \<and> output_name ann property_name = Inr name \<and>
    annotate_pk_mapping (normalize_annotation ann) objs = Inr pk_mapping
    \<longrightarrow> annotate_property qs ann property_name =
          Inr (extra qs name (case_sql (map annotate_when pk_mapping))) \<and>
        distinct (map fst pk_mapping) \<and>
        set (map fst pk_mapping) = pk ` set objs)"
proof (intro conjI impI)
  assume a: "iterate qs = Inr objs \<and> normalize_key k = Inr keyf \<and>
    py_sorted objs keyf reverse = Inr sorted_objects \<and> sorted_objects \<noteq> []"
  then show "sort qs k reverse =
          Inr (order_by (extra qs ''sort_order''
                 (case_sql (map sort_when (sort_pk_mapping sorted_objects)))) ''sort_order'')"
    by (simp add: sort_def)
  show "distinct (map fst (sort_pk_mapping sorted_objects))" by (rule sort_pk_mapping_distinct)
  from a have "set sorted_objects = set objs" by (metis py_sorted_mset set_mset_mset)
  then show "set (map fst (sort_pk_mapping sorted_objects)) = pk ` set objs"
    by (simp add: sort_pk_mapping_keys)
next
  assume a: "iterate qs = Inr objs \<and> output_name ann property_name = Inr name \<and>
    annotate_pk_mapping (normalize_annotation ann) objs = Inr pk_mapping"
  then show "annotate_property qs ann property_name =
          Inr (extra qs name (case_sql (map annotate_when pk_mapping)))"
    by (simp add: annotate_property_def)
  from a show "distinct (map fst pk_mapping)" "set (map fst pk_mapping) = pk ` set objs"
    using annotate_pk_mapping_keys by blast+
qed


theorem identifiers_once_witness:
  "sort two_records (KStr ''name'') False =
     Inr \<lparr>qs_rows = [rec_b, rec_a],
          qs_select = [(''sort_order'', ''CASE WHEN id = 2 THEN 0 WHEN id = 1 THEN 1 END'')],
          qs_order = Some ''sort_order''\<rparr> \<and>
   annotate_property two_records (AStr ''cost'') None =
     Inr \<lparr>qs_rows = [rec_b, rec_a],
          qs_select = [(''cost_property'', ''CASE WHEN id = 1 THEN 10 WHEN id = 2 THEN 9 END'')],
          qs_order = None\<rparr>"
proof -
  have i: "iterate two_records = Inr [rec_b, rec_a]" by code_simp
  have s: "py_sorted [rec_b, rec_a] (\<lambda>obj. py_getattr obj ''name'') False = Inr [rec_a, rec_b]"
    by code_simp
  have m: "annotate_pk_mapping (normalize_annotation (AStr ''cost'')) [rec_b, rec_a]
             = Inr [(1, VInt 10), (2, VInt 9)]"
    by code_simp
  have t1: "case_sql (map sort_when (sort_pk_mapping [rec_a, rec_b]))
              = ''CASE WHEN id = 2 THEN 0 WHEN id = 1 THEN 1 END''"
    by code_simp
  have t2: "case_sql [annotate_when (1, VInt 10), annotate_when (2, VInt 9)]
              = ''CASE WHEN id = 1 THEN 10 WHEN id = 2 THEN 9 END''"
    by code_simp
  show ?thesis
    using identifiers_once
      [of two_records "[rec_b, rec_a]" "KStr ''name''" "\<lambda>obj. py_getattr obj ''name''" False
          "[rec_a, rec_b]" "AStr ''cost''" None "''cost_property''" "[(1, VInt 10), (2, VInt 9)]"]
      i s m
    by (simp add: t1 t2 extra_def order_by_def two_records_def)
qed

section \<open>Sorting a collection\<close>

text \<open>
  Claim C1, as stated, fails for a collection that yields a record more than once. The
  three rows have equal keys, so the in-memory sort keeps them in the order 1, 2, 1; the
  dictionary keeps one rank per identifier (2 for the record 1, 1 for the record 2), and
  the returned collection iterates in the order 2, 1, 1.
\<close>

theorem sort_duplicate_rows_counterexample:
  "iterate joined_rows = Inr [rec_c, rec_d, rec_c] \<and>
   py_sorted [rec_c, rec_d, rec_c] (\<lambda>obj. py_getattr obj ''cost'') False
     = Inr [rec_c, rec_d, rec_c] \<and>
   sort joined_rows (KStr ''cost'') False =
     Inr \<lparr>qs_rows = [rec_c, rec_d, rec_c],
          qs_select = [(''sort_order'', ''CASE WHEN id = 1 THEN 2 WHEN id = 2 THEN 1 END'')],
          qs_order = Some ''sort_order''\<rparr> \<and>
   map_sum id (map pk)
     (iterate \<lparr>qs_rows = [rec_c, rec_d, rec_c],
          qs_select = [(''sort_order'', ''CASE WHEN id = 1 THEN 2 WHEN id = 2 THEN 1 END'')],
          qs_order = Some ''sort_order''\<rparr>) = Inr [2, 1, 1] \<and>
   map pk [rec_c, rec_d, rec_c] = [1, 2, 1]"
  by code_simp

text \<open>
  Claim C1, amended. For every non-empty collection whose records have pairwise distinct
  identifiers, every key and both values of the reverse flag: whenever the in-memory
  stable sort of the materialized records by the normalized key succeeds, \<open>sort\<close>
  returns a collection that can be iterated and yields the records in exactly that order.
\<close>

theorem sort_materializes_sorted:
  assumes "iterate qs = Inr objs" and "objs \<noteq> []" and "distinct (map pk objs)"
    and "normalize_key k = Inr keyf" and "py_sorted objs keyf reverse = Inr sorted_objects"
  shows "\<exists>qs' objs'. sort qs k reverse = Inr qs' \<and> iterate qs' = Inr objs' \<and>
           map pk objs' = map pk sorted_objects"
proof -
  let ?sql = "case_sql (map sort_when (sort_pk_mapping sorted_objects))"
  let ?bs = "map (\<lambda>item. (fst item, SqlInt (int (snd item)))) (sort_pk_mapping sorted_objects)"
  have m: "mset sorted_objects = mset objs" using assms(5) by (rule py_sorted_mset)
  then have ne: "sorted_objects \<noteq> []" using assms(2) by auto
  have s: "sort qs k reverse = Inr (order_by (extra qs ''sort_order'' ?sql) ''sort_order'')"
    using assms ne by (simp add: sort_def)
  have c: "compile_sql ?sql = Inr ?bs" using ne by (rule compile_sort_sql)
  from iterate_extra_ordered[OF assms(1) c, of "''sort_order''"] obtain objs' where
    i: "iterate (order_by (extra qs ''sort_order'' ?sql) ''sort_order'') = Inr objs'"
    and p: "map pk objs' = sort_key (\<lambda>p. sql_ord (eval_case ?bs p)) (map pk (qs_rows qs))"
    by blast
  have mp: "mset (map pk sorted_objects) = mset (map pk objs)" using m by (metis mset_map)
  then have d: "distinct (map pk sorted_objects)" using assms(3) by (metis mset_eq_imp_distinct_iff)
  have "mset (map pk (qs_rows qs)) = mset (map pk sorted_objects)"
    using iterate_mset[OF assms(1)] mp by simp
  with d have "sort_key (\<lambda>p. sql_ord (eval_case ?bs p)) (map pk (qs_rows qs)) = map pk sorted_objects"
    by (rule sort_by_rank)
  with s i p show ?thesis by simp
qed

theorem sort_materializes_sorted_witness:
  "iterate two_records = Inr [rec_b, rec_a] \<and>
   py_sorted [rec_b, rec_a] (\<lambda>obj. py_getattr obj ''name'') False = Inr [rec_a, rec_b] \<and>
   (\<exists>qs' objs'. sort two_records (KStr ''name'') False = Inr qs' \<and> iterate qs' = Inr objs' \<and>
      map pk objs' = [2, 1])"
proof -
  have i: "iterate two_records = Inr [rec_b, rec_a]" by code_simp
  have s: "py_sorted [rec_b, rec_a] (\<lambda>obj. py_getattr obj ''name'') False = Inr [rec_a, rec_b]"
    by code_simp
  have d: "distinct (map pk [rec_b, rec_a])" by code_simp
  have p: "map pk [rec_a, rec_b] = [2, 1]" by code_simp
  have n: "normalize_key (KStr ''name'') = Inr (\<lambda>obj. py_getattr obj ''name'')" by simp
  have e: "[rec_b, rec_a] \<noteq> []" by simp
  show ?thesis using sort_materializes_sorted[OF i e d n s] i s unfolding p by blast
qed

section \<open>Annotation and the order of the collection\<close>

text \<open>
  Claim C8, as stated, fails when the output name is the name of the field the
  collection is ordered by. The collection sorted by name in descending order iterates as
  1, 2; annotating it with the cost under the name \<open>sort_order\<close> replaces the expression
  of the ordering field, and the returned collection iterates as 2, 1.
\<close>

theorem annotate_reorders_counterexample:
  "sort two_records (KStr ''name'') True = Inr by_name_desc \<and>
   map_sum id (map pk) (iterate by_name_desc) = Inr [1, 2] \<and>
   annotate_property by_name_desc (AStr ''cost'') (Some ''sort_order'') = Inr cost_as_sort_order \<and>
   map_sum id (map pk) (iterate cost_as_sort_order) = Inr [2, 1]"
  by code_simp

text \<open>
  Claim C8, amended. \<open>annotate_property\<close> returns a new collection with the rows and
  the ordering field of the input. When the output name is not the name of the field the
  input is ordered by and the returned collection can be iterated, it yields the records
  in the order of the input.
\<close>

theorem annotate_keeps_ordering:
  assumes "annotate_property qs ann property_name = Inr qs'"
  shows "qs_rows qs' = qs_rows qs \<and> qs_order qs' = qs_order qs \<and>
         (\<forall>name objs objs'.
            output_name ann property_name = Inr name \<and> qs_order qs \<noteq> Some name \<and>
            iterate qs = Inr objs \<and> iterate qs' = Inr objs'
            \<longrightarrow> map pk objs' = map pk objs)"
proof -
  from assms obtain name0 objs0 pk_mapping where
    n0: "output_name ann property_name = Inr name0"
    and q: "qs' = extra qs name0 (case_sql (map annotate_when pk_mapping))"
    by (rule annotate_property_result)
  have frame: "qs_rows qs' = qs_rows qs" "qs_order qs' = qs_order qs"
    by (simp_all add: q extra_def)
  have "map pk objs' = map pk objs"
    if h: "output_name ann property_name = Inr name" "qs_order qs \<noteq> Some name"
          "iterate qs = Inr objs" "iterate qs' = Inr objs'" for name objs objs'
  proof -
    have name: "name = name0" using h(1) n0 by simp
    have "map_of (qs_select qs') f = map_of (qs_select qs) f" if "qs_order qs = Some f" for f
      using that h(2) by (auto simp: q extra_def map_of_dict_set name)
    then show ?thesis
      using iterate_pks[OF h(3)] iterate_pks[OF h(4)] frame
      by (cases "qs_order qs") simp_all
  qed
  with frame show ?thesis by blast
qed


theorem annotate_keeps_ordering_witness:
  "annotate_property two_records (AStr ''cost'') None = Inr with_cost_property \<and>
   output_name (AStr ''cost'') None = Inr ''cost_property'' \<and>
   qs_order two_records \<noteq> Some ''cost_property'' \<and>
   qs_rows with_cost_property = qs_rows two_records \<and>
   qs_order with_cost_property = qs_order two_records \<and>
   iterate two_records = Inr [rec_b, rec_a] \<and>
   (\<exists>objs'. iterate with_cost_property = Inr objs' \<and> map pk objs' = map pk [rec_b, rec_a])"
proof -
  have a: "annotate_property two_records (AStr ''cost'') None = Inr with_cost_property"
    by code_simp
  have i: "iterate two_records = Inr [rec_b, rec_a]" by code_simp
  have o: "qs_order two_records \<noteq> Some ''cost_property''" by code_simp
  have "\<not> isl (iterate with_cost_property)" by code_simp
  then obtain objs' where i': "iterate with_cost_property = Inr objs'"
    by (cases "iterate with_cost_property") auto
  from annotate_keeps_ordering[OF a] i i' o show ?thesis using a by auto
qed

section \<open>Reading an annotated property back\<close>

text \<open>
  Claim C2, as stated, fails for a key function whose value has no literal: the note of
  the record is \<open>None\<close>, its \<open>repr\<close> is the word \<open>None\<close>, the database refuses the
  expression, and the computed field of the returned collection cannot be read.
\<close>

theorem annotate_none_counterexample:
  "iterate one_note = Inr [rec_n] \<and>
   normalize_annotation (AStr ''note'') rec_n = Inr VNone \<and>
   annotate_property one_note (AStr ''note'') None = Inr with_note_property \<and>
   iterate with_note_property = Inl DatabaseError"
  by code_simp

text \<open>
  Claim C2, amended. For every non-empty collection whose records are told apart by
  their identifiers, every name and every key function that gives, on each record, a
  value whose \<open>repr\<close> is a literal of the expression language denoting that value:
  \<open>annotate_property\<close> returns a collection that can be iterated, holds the same
  records, and in which reading the computed field of a record gives exactly the key
  function's value on that record.
\<close>

theorem annotate_roundtrip:
  assumes "iterate qs = Inr objs" and "objs \<noteq> []" and "inj_on pk (set objs)"
    and "output_name ann property_name = Inr name"
    and "\<forall>obj\<in>set objs. \<exists>v. normalize_annotation ann obj = Inr v \<and> representable v"
  shows "\<exists>qs' objs'. annotate_property qs ann property_name = Inr qs' \<and>
           iterate qs' = Inr objs' \<and> pk ` set objs' = pk ` set objs \<and>
           (\<forall>obj\<in>set objs. \<forall>obj'\<in>set objs'.
              pk obj' = pk obj \<longrightarrow> py_getattr obj' name = normalize_annotation ann obj)"
proof -
  from annotate_compiles[OF assms(2) assms(5) assms(3)] obtain m bs where
    m: "annotate_pk_mapping (normalize_annotation ann) objs = Inr m"
    and c: "compile_sql (case_sql (map annotate_when m)) = Inr bs"
    and v: "\<And>obj. obj \<in> set objs \<Longrightarrow>
              Inr (from_sql (eval_case bs (pk obj))) = normalize_annotation ann obj"
    by blast
  let ?qs' = "extra qs name (case_sql (map annotate_when m))"
  have a: "annotate_property qs ann property_name = Inr ?qs'"
    using assms(1,4) m by (simp add: annotate_property_def)
  from iterate_extra[OF assms(1) c, of name] obtain cs objs' where
    i: "iterate ?qs' = Inr objs'"
    and f: "fetch (dict_set name bs cs) (qs_rows qs) (qs_order qs) = Inr objs'"
    by blast
  have s': "set objs' = row_object (dict_set name bs cs) ` set (qs_rows qs)"
    using f by (rule set_fetch)
  have "set (map pk objs) = set (map pk (qs_rows qs))"
    using iterate_mset[OF assms(1)] by (rule mset_eq_setD)
  then have pks: "pk ` set objs' = pk ` set objs"
    by (simp add: s' image_image)
  have "py_getattr obj' name = normalize_annotation ann obj"
    if "obj \<in> set objs" "obj' \<in> set objs'" "pk obj' = pk obj" for obj obj'
  proof -
    from that(2) s' obtain row where "obj' = row_object (dict_set name bs cs) row" by auto
    then have "py_getattr obj' name = Inr (from_sql (eval_case bs (pk obj')))"
      by (simp add: py_getattr_row_object map_of_dict_set)
    with that(1,3) v show ?thesis by simp
  qed
  with a i pks show ?thesis by blast
qed

theorem annotate_roundtrip_witness:
  "iterate two_records = Inr [rec_b, rec_a] \<and>
   normalize_annotation (AStr ''name'') rec_b = Inr (VStr ''b'') \<and> representable (VStr ''b'') \<and>
   normalize_annotation (AStr ''name'') rec_a = Inr (VStr ''a'') \<and> representable (VStr ''a'') \<and>
   (\<exists>qs' objs'. annotate_property two_records (AStr ''name'') None = Inr qs' \<and>
      iterate qs' = Inr objs' \<and> pk ` set objs' = pk ` set [rec_b, rec_a] \<and>
      (\<forall>obj\<in>set [rec_b, rec_a]. \<forall>obj'\<in>set objs'.
         pk obj' = pk obj \<longrightarrow>
         py_getattr obj' ''name_property'' = normalize_annotation (AStr ''name'') obj))"
proof -
  have i: "iterate two_records = Inr [rec_b, rec_a]" by code_simp
  have b: "normalize_annotation (AStr ''name'') rec_b = Inr (VStr ''b'')" by code_simp
  have a: "normalize_annotation (AStr ''name'') rec_a = Inr (VStr ''a'')" by code_simp
  have rb: "representable (VStr ''b'')" by code_simp
  have ra: "representable (VStr ''a'')" by code_simp
  have "pk rec_b \<noteq> pk rec_a" by code_simp
  then have inj: "inj_on pk (set [rec_b, rec_a])" by (auto simp: inj_on_def)
  have ne: "[rec_b, rec_a] \<noteq> []" by simp
  have n: "output_name (AStr ''name'') None = Inr ''name_property''" by simp
  have h: "\<forall>obj\<in>set [rec_b, rec_a].
             \<exists>v. normalize_annotation (AStr ''name'') obj = Inr v \<and> representable v"
    using a b ra rb by simp
  show ?thesis using annotate_roundtrip[OF i ne inj n h] i a b ra rb by blast
qed

section \<open>Tuple keys\<close>

text \<open>
  Claim C5. For records on which each of the attributes \<open>a\<close> and \<open>b\<close> holds integers
  throughout or strings throughout, and for both values of the reverse flag, the
  in-memory sort by the tuple key \<open>(a, b)\<close> succeeds and gives the order obtained by
  sorting by \<open>b\<close> and then, stably, by \<open>a\<close>: the records are ordered by \<open>a\<close>, and
  records with equal \<open>a\<close> are ordered by \<open>b\<close>.
\<close>

theorem tuple_key_lexicographic:
  assumes "uniform_attr objs a" and "uniform_attr objs b"
  shows "sort_in_memory objs (KTuple [a, b]) reverse
           = ebind (sort_in_memory objs (KStr b) reverse)
               (\<lambda>ys. sort_in_memory ys (KStr a) reverse) \<and>
         (\<exists>zs. sort_in_memory objs (KTuple [a, b]) reverse = Inr zs)"
proof -
  let ?va = "\<lambda>x. projr (py_getattr x a)" and ?vb = "\<lambda>x. projr (py_getattr x b)"
  let ?fa = "\<lambda>x. atom_key (?va x)" and ?fb = "\<lambda>x. atom_key (?vb x)"
  let ?kv = "\<lambda>x. VTuple [?va x, ?vb x]"
  let ?kab = "\<lambda>obj. case traverse (py_getattr obj) [a, b] of
                        Inl e \<Rightarrow> Inl e | Inr vs \<Rightarrow> Inr (VTuple vs)"
  note ua = uniform_attr_values[OF assms(1)] and ub = uniform_attr_values[OF assms(2)]
  have k: "\<forall>x\<in>set objs. ?kab x = Inr (?kv x)"
  proof
    fix x assume x: "x \<in> set objs"
    from ua[OF x x] ub[OF x x] obtain u v where "py_getattr x a = Inr u" "py_getattr x b = Inr v"
      by blast
    then show "?kab x = Inr (?kv x)" by simp
  qed
  have lt: "\<forall>x\<in>set objs. \<forall>y\<in>set objs.
              py_lt (?kv x) (?kv y) = Inr (pair_key (?kv x) < pair_key (?kv y))"
  proof (intro ballI)
    fix x y assume xy: "x \<in> set objs" "y \<in> set objs"
    from ua[OF xy] ub[OF xy] show "py_lt (?kv x) (?kv y) = Inr (pair_key (?kv x) < pair_key (?kv y))"
      by (auto simp: less_prod_def[of "(atom_key _, atom_key _)"])
  qed
  have tuple: "py_sorted objs ?kab reverse =
      Inr (if reverse then rev (sort_key (\<lambda>x. (?fa x, ?fb x)) (rev objs))
           else sort_key (\<lambda>x. (?fa x, ?fb x)) objs)"
    using py_sorted_sort_key[OF k lt, of reverse] by simp
  have second: "py_sorted objs (\<lambda>obj. py_getattr obj b) reverse =
      Inr (if reverse then rev (sort_key ?fb (rev objs)) else sort_key ?fb objs)"
    by (rule py_sorted_sort_key) (use ub in blast)+
  have first: "py_sorted ys (\<lambda>obj. py_getattr obj a) reverse =
      Inr (if reverse then rev (sort_key ?fa (rev ys)) else sort_key ?fa ys)"
    if "set ys = set objs" for ys
    by (rule py_sorted_sort_key) (use ua that in blast)+
  have two: "ebind (py_sorted objs (\<lambda>obj. py_getattr obj b) reverse)
               (\<lambda>ys. py_sorted ys (\<lambda>obj. py_getattr obj a) reverse)
             = Inr (if reverse then rev (sort_key ?fa (sort_key ?fb (rev objs)))
                    else sort_key ?fa (sort_key ?fb objs))"
    unfolding second by (simp add: first)
  have "py_sorted objs ?kab reverse
          = ebind (py_sorted objs (\<lambda>obj. py_getattr obj b) reverse)
              (\<lambda>ys. py_sorted ys (\<lambda>obj. py_getattr obj a) reverse)"
    unfolding tuple two by (simp add: sort_key_lexicographic)
  then show ?thesis using tuple by (simp add: sort_in_memory_def)
qed


theorem tuple_key_lexicographic_witness:
  "uniform_attr three_records ''name'' \<and> uniform_attr three_records ''cost'' \<and>
   sort_in_memory three_records (KTuple [''name'', ''cost'']) True
     = ebind (sort_in_memory three_records (KStr ''cost'') True)
         (\<lambda>ys. sort_in_memory ys (KStr ''name'') True) \<and>
   map_sum id (map pk) (sort_in_memory three_records (KTuple [''name'', ''cost'']) True)
     = Inr [1, 2, 3] \<and>
   map_sum id (map pk) (sort_in_memory three_records (KTuple [''name'', ''cost'']) False)
     = Inr [3, 2, 1]"
proof -
  have n: "uniform_attr three_records ''name''" by code_simp
  have c: "uniform_attr three_records ''cost''" by code_simp
  have t: "map_sum id (map pk) (sort_in_memory three_records (KTuple [''name'', ''cost'']) True)
             = Inr [1, 2, 3]"
    by code_simp
  have f: "map_sum id (map pk) (sort_in_memory three_records (KTuple [''name'', ''cost'']) False)
             = Inr [3, 2, 1]"
    by code_simp
  show ?thesis using tuple_key_lexicographic[OF n c, of True] n c t f by blast
qed

end
